theory Spec2Isabelle
  imports Main "HOL-Library.Word"
begin

unbundle bit_operations_syntax

section \<open>Shared data model\<close>

text \<open>
  The three programs (\<^verbatim>\<open>video_decode.cpp\<close>, \<^verbatim>\<open>video_encode.cpp\<close>,
  \<^verbatim>\<open>video_hw_decode.cpp\<close>) drive libavcodec through its send/receive protocol.
  The library itself is not part of the repository: every library function is a field
  of a record of functions over abstract engine states, and the programs are embedded
  as functions that thread an explicit process state through the calls.
\<close>

type_synonym byte = "8 word"

text \<open>The fields of \<^verbatim>\<open>AVPacket\<close> and \<^verbatim>\<open>AVFrame\<close> that the programs touch.
  A \<^verbatim>\<open>NULL\<close> data pointer is \<open>None\<close>; the fixed arrays \<^verbatim>\<open>data[]\<close> and
  \<^verbatim>\<open>linesize[]\<close> are functions of the plane index.\<close>

record AVPacket =
  pkt_data :: "byte list option"
  pkt_size :: int
  pkt_pts :: int
  stream_index :: int

record AVFrame =
  format :: int
  width :: int
  height :: int
  linesize :: "nat \<Rightarrow> int"
  data :: "nat \<Rightarrow> byte list"
  pts :: int

text \<open>The history of calls made to the codec engine and to the parser, in call order.
  \<open>SendPacket p r\<close> is a call of \<^verbatim>\<open>avcodec_send_packet\<close> with packet \<open>p\<close>
  (\<open>None\<close> for a \<^verbatim>\<open>NULL\<close> pointer) that returned \<open>r\<close>; the others likewise.
  \<open>Parse buf off n r\<close> is a call of \<^verbatim>\<open>av_parser_parse2\<close> on the buffer \<open>buf\<close>
  with the cursor at offset \<open>off\<close>, \<open>n\<close> bytes offered, \<open>r\<close> returned.
  \<open>ReadFrame r p\<close> is a call of \<^verbatim>\<open>av_read_frame\<close> that returned \<open>r\<close> and left the
  packet \<open>p\<close>; \<open>TransferData dst src r\<close> a call of \<^verbatim>\<open>av_hwframe_transfer_data\<close>;
  \<open>CopyToBuffer fr n\<close> a call of \<^verbatim>\<open>av_image_copy_to_buffer\<close> with the planes of
  \<open>fr\<close> and a buffer of \<open>n\<close> bytes; \<open>Unref p\<close> a call of \<^verbatim>\<open>av_packet_unref\<close>.\<close>

datatype call =
    SendPacket "AVPacket option" int
  | ReceiveFrame int
  | SendFrame "AVFrame option" int
  | ReceivePacket int
  | Parse "nat \<Rightarrow> byte" nat int int
  | FindBestStream int
  | ReadFrame int AVPacket
  | TransferData AVFrame AVFrame int
  | CopyToBuffer AVFrame int
  | Unref AVPacket

text \<open>What exists for the whole life of a process: the file system, the two text
  streams (one list element per \<^verbatim>\<open>fprintf\<close>/\<^verbatim>\<open>printf\<close> call, without the final
  newline), the call history, the names of the files opened for writing so far (in
  order), the packets that \<^verbatim>\<open>avcodec_receive_packet\<close> has delivered so far (in order)
  and the number of allocation requests made so far.\<close>

record process =
  fs :: "string \<Rightarrow> byte list option"
  err_stream :: "string list"
  out_stream :: "string list"
  calls :: "call list"
  created :: "string list"
  delivered :: "AVPacket list"
  allocs :: nat

text \<open>\<^verbatim>\<open>exit(n)\<close> ends the process inside a callee; a function that can call it returns
  an outcome.\<close>

datatype 'w outcome = Returned 'w | Exited int 'w

definition eprint :: "string \<Rightarrow> 'a process_scheme \<Rightarrow> 'a process_scheme" where
  "eprint s w = w\<lparr>err_stream := err_stream w @ [s]\<rparr>"

definition oprint :: "string \<Rightarrow> 'a process_scheme \<Rightarrow> 'a process_scheme" where
  "oprint s w = w\<lparr>out_stream := out_stream w @ [s]\<rparr>"

definition record_call :: "call \<Rightarrow> 'a process_scheme \<Rightarrow> 'a process_scheme" where
  "record_call k w = w\<lparr>calls := calls w @ [k]\<rparr>"

text \<open>\<^verbatim>\<open>fopen(name, "w")\<close> creates or truncates; \<^verbatim>\<open>fwrite\<close> appends.\<close>

definition fopen_w :: "string \<Rightarrow> 'a process_scheme \<Rightarrow> 'a process_scheme" where
  "fopen_w name w = w\<lparr>fs := (fs w)(name \<mapsto> []), created := created w @ [name]\<rparr>"

definition fwrite :: "byte list \<Rightarrow> string \<Rightarrow> 'a process_scheme \<Rightarrow> 'a process_scheme" where
  "fwrite bs name w =
     w\<lparr>fs := (fs w)(name \<mapsto> (case fs w name of None \<Rightarrow> bs | Some old \<Rightarrow> old @ bs))\<rparr>"

fun final :: "'w outcome \<Rightarrow> 'w" where
  "final (Returned w) = w"
| "final (Exited st w) = w"

subsection \<open>The library\<close>

text \<open>What all three programs use. \<open>'c\<close> is \<^verbatim>\<open>AVCodec\<close>, \<open>'e\<close> the state behind
  \<^verbatim>\<open>AVCodecContext\<close>. The error codes are the library's macros
  \<^verbatim>\<open>AVERROR(EAGAIN)\<close>, \<^verbatim>\<open>AVERROR_EOF\<close> and \<^verbatim>\<open>AVERROR(ENOMEM)\<close>. Functions that
  return a pointer return an option. The allocators \<^verbatim>\<open>av_frame_alloc\<close>,
  \<^verbatim>\<open>av_packet_alloc\<close> and \<^verbatim>\<open>av_malloc\<close> take the number of allocation requests the
  process has made before, so that any request may be the one that fails;
  \<^verbatim>\<open>av_malloc\<close> takes the requested size (a \<^verbatim>\<open>size_t\<close>) as well.\<close>

record ('c, 'e) libav =
  AVERROR_EAGAIN :: int
  AVERROR_EOF :: int
  AVERROR_ENOMEM :: int
  av_frame_alloc :: "nat \<Rightarrow> AVFrame option"
  av_packet_alloc :: "nat \<Rightarrow> AVPacket option"
  av_malloc :: "nat \<Rightarrow> nat \<Rightarrow> bool"
  avcodec_alloc_context3 :: "'c \<Rightarrow> 'e option"
  avcodec_open2 :: "'e \<Rightarrow> 'c \<Rightarrow> int \<times> 'e"
  av_packet_unref :: "AVPacket \<Rightarrow> AVPacket"

text \<open>The decoding half of the send/receive protocol, used by both decoders.\<close>

record ('c, 'e) decoding_lib = "('c, 'e) libav" +
  avcodec_send_packet :: "'e \<Rightarrow> AVPacket option \<Rightarrow> int \<times> 'e"
  avcodec_receive_frame :: "'e \<Rightarrow> AVFrame \<Rightarrow> int \<times> AVFrame \<times> 'e"

definition count_alloc :: "'a process_scheme \<Rightarrow> 'a process_scheme" where
  "count_alloc w = w\<lparr>allocs := allocs w + 1\<rparr>"

definition process0 :: "(string \<Rightarrow> byte list option) \<Rightarrow> process" where
  "process0 files =
     \<lparr>fs = files, err_stream = [], out_stream = [], calls = [], created = [],
      delivered = [], allocs = 0\<rparr>"

text \<open>\<^verbatim>\<open>argv[0]\<close> in the usage lines.\<close>

definition argv0 :: "string list \<Rightarrow> string" where
  "argv0 argv = (case argv of [] \<Rightarrow> [] | a # _ \<Rightarrow> a)"

subsection \<open>Formatting\<close>

fun dec_nat :: "nat \<Rightarrow> string" where
  "dec_nat n =
     (if n < 10 then [''0123456789'' ! n]
      else dec_nat (n div 10) @ [''0123456789'' ! (n mod 10)])"

declare dec_nat.simps [simp del]

text \<open>\<^verbatim>\<open>%d\<close>\<close>

definition show_int :: "int \<Rightarrow> string" where
  "show_int i = (if i < 0 then CHR ''-'' # dec_nat (nat (- i)) else dec_nat (nat i))"

text \<open>\<^verbatim>\<open>%3d\<close>, \<^verbatim>\<open>%5d\<close>: right-justified in a field of at least \<open>k\<close> characters.\<close>

definition show_int_w :: "nat \<Rightarrow> int \<Rightarrow> string" where
  "show_int_w k i = replicate (k - length (show_int i)) CHR '' '' @ show_int i"

definition bytes_of :: "string \<Rightarrow> byte list" where
  "bytes_of s = map of_char s"

text \<open>\<^verbatim>\<open>snprintf(buf, n, ...)\<close> keeps at most \<open>n - 1\<close> characters.\<close>

definition snprintf :: "nat \<Rightarrow> string \<Rightarrow> string" where
  "snprintf n s = take (n - 1) s"

section \<open>video_decode.cpp\<close>

definition INBUF_SIZE :: nat where
  "INBUF_SIZE = 4096"

text \<open>The input stream \<^verbatim>\<open>FILE *f\<close>: the bytes of the file as they were when it was
  opened, the read position and the end-of-file indicator.\<close>

record FILE_in =
  content :: "byte list"
  pos :: nat
  at_eof :: bool

text \<open>What only \<^verbatim>\<open>video_decode.cpp\<close> uses. \<open>'ps\<close> is the state behind
  \<^verbatim>\<open>AVCodecParserContext\<close>; \<open>garbage\<close> is the content of uninitialised stack
  memory; \<open>frame_number\<close> reads the field of that name of \<^verbatim>\<open>AVCodecContext\<close>, a
  C \<^verbatim>\<open>int\<close>; \<open>can_open_w\<close> tells whether \<^verbatim>\<open>fopen(name, "w")\<close> succeeds.
  \<open>av_parser_parse2 ps e buf off n\<close> is the call with \<^verbatim>\<open>data = inbuf + off\<close> and
  \<^verbatim>\<open>data_size = n\<close>; it returns the consumed length, the values it stores in
  \<^verbatim>\<open>pkt->data\<close> and \<^verbatim>\<open>pkt->size\<close>, and the new parser and context states.\<close>

record ('c, 'e, 'ps) decoder_lib = "('c, 'e) decoding_lib" +
  AV_INPUT_BUFFER_PADDING_SIZE :: nat
  avcodec_find_decoder_by_name :: "string \<Rightarrow> 'c option"
  av_parser_init :: "'c \<Rightarrow> 'ps option"
  garbage :: "nat \<Rightarrow> byte"
  av_parser_parse2 ::
    "'ps \<Rightarrow> 'e \<Rightarrow> (nat \<Rightarrow> byte) \<Rightarrow> nat \<Rightarrow> int \<Rightarrow> int \<times> (byte list option \<times> int) \<times> 'ps \<times> 'e"
  frame_number :: "'e \<Rightarrow> 32 word"
  can_open_w :: "string \<Rightarrow> bool"

text \<open>The objects \<^verbatim>\<open>main\<close> creates, on top of the process state.\<close>

record ('e, 'ps) decode_state = process +
  ctx :: 'e
  parser :: 'ps
  frame :: AVFrame
  pkt :: AVPacket
  infile :: FILE_in
  inbuf :: "nat \<Rightarrow> byte"

text \<open>\<^verbatim>\<open>pgm_save\<close>: the header, then \<open>ysize\<close> rows of \<open>xsize\<close> bytes, row \<open>i\<close>
  starting at \<open>buf + i * wrap\<close>. \<open>buf\<close> is the plane from the plane pointer on, so a
  row lies in it when it starts at or after the pointer and ends inside the plane
  (\<open>rows_in_plane\<close>). The source does not check the result of \<^verbatim>\<open>fopen\<close>: when it
  fails, \<^verbatim>\<open>fprintf\<close> is called on a null stream, and when a row does not lie in the
  plane, \<^verbatim>\<open>fwrite\<close> reads memory that the frame does not hold (before the pointer for
  a negative \<open>wrap\<close>, or behind the end). C defines neither, and here the result is
  \<open>None\<close>, as for a call that does not return. \<open>pgm_written\<close> is what the call
  does to the process when both go well.\<close>

definition rows_in_plane :: "byte list \<Rightarrow> int \<Rightarrow> int \<Rightarrow> int \<Rightarrow> bool" where
  "rows_in_plane buf wrap xsize ysize \<longleftrightarrow>
     list_all (\<lambda>i. 0 \<le> xsize \<and> 0 \<le> int i * wrap
                    \<and> nat (int i * wrap) + nat xsize \<le> length buf)
       [0..<nat ysize]"

definition pgm_written ::
  "byte list \<Rightarrow> int \<Rightarrow> int \<Rightarrow> int \<Rightarrow> string \<Rightarrow> 'a process_scheme \<Rightarrow> 'a process_scheme" where
  "pgm_written buf wrap xsize ysize filename w =
     fwrite
       (concat (map (\<lambda>i. take (nat xsize) (drop (nat (int i * wrap)) buf)) [0..<nat ysize]))
       filename
       (fwrite
          (bytes_of (''P5'' @ [CHR 0x0A] @ show_int xsize @ '' '' @ show_int ysize
                     @ [CHR 0x0A] @ show_int 255 @ [CHR 0x0A]))
          filename
          (fopen_w filename w))"

definition pgm_save ::
  "('c, 'e, 'ps) decoder_lib \<Rightarrow> byte list \<Rightarrow> int \<Rightarrow> int \<Rightarrow> int \<Rightarrow> string
     \<Rightarrow> 'a process_scheme \<Rightarrow> 'a process_scheme option" where
  "pgm_save L buf wrap xsize ysize filename w =
     (if can_open_w L filename \<and> rows_in_plane buf wrap xsize ysize
      then Some (pgm_written buf wrap xsize ysize filename w)
      else None)"

text \<open>The \<^verbatim>\<open>while (ret >= 0)\<close> loop of \<^verbatim>\<open>decode\<close>. The engine may go on producing
  frames for ever, so the loop is a partial function. \<^verbatim>\<open>%d\<close> prints the \<^verbatim>\<open>int\<close>
  \<^verbatim>\<open>frame_number\<close> as a signed number.\<close>

partial_function (option) decode_loop ::
  "('c, 'e, 'ps) decoder_lib \<Rightarrow> string \<Rightarrow> int \<Rightarrow> ('e, 'ps) decode_state
     \<Rightarrow> ('e, 'ps) decode_state outcome option" where
  "decode_loop L filename ret w =
     (if ret \<ge> 0 then
        (case avcodec_receive_frame L (ctx w) (frame w) of (ret', fr, e) \<Rightarrow>
           let w1 = record_call (ReceiveFrame ret') (w\<lparr>ctx := e, frame := fr\<rparr>) in
           if ret' = AVERROR_EAGAIN L \<or> ret' = AVERROR_EOF L then Some (Returned w1)
           else if ret' < 0 then Some (Exited 1 (eprint ''Error during decoding'' w1))
           else
             let w2 = oprint (''saving frame ''
                                @ show_int_w 3 (sint (frame_number L (ctx w1)))) w1;
                 buf = snprintf 1024
                         (filename @ ''-'' @ show_int (sint (frame_number L (ctx w2))))
             in (case pgm_save L (data (frame w2) 0) (linesize (frame w2) 0)
                        (width (frame w2)) (height (frame w2)) buf w2 of
                   None \<Rightarrow> None
                 | Some w3 \<Rightarrow> decode_loop L filename ret' w3))
      else Some (Returned w))"

definition decode ::
  "('c, 'e, 'ps) decoder_lib \<Rightarrow> AVPacket option \<Rightarrow> string \<Rightarrow> ('e, 'ps) decode_state
     \<Rightarrow> ('e, 'ps) decode_state outcome option" where
  "decode L p filename w =
     (case avcodec_send_packet L (ctx w) p of (ret, e) \<Rightarrow>
        let w1 = record_call (SendPacket p ret) (w\<lparr>ctx := e\<rparr>) in
        if ret < 0 then Some (Exited 1 (eprint ''Error sending a packet for decoding'' w1))
        else decode_loop L filename ret w1)"

text \<open>\<^verbatim>\<open>size_t\<close> is taken to be 64 bits wide and \<^verbatim>\<open>int\<close> 32 bits wide.\<close>

type_synonym size_t = "64 word"

definition size_t_to_int :: "size_t \<Rightarrow> int" where
  "size_t_to_int n = sint (ucast n :: 32 word)"

text \<open>\<^verbatim>\<open>fread(inbuf, 1, n, f)\<close>: the bytes read (at most \<open>n\<close>) and the stream after the
  call; reading fewer than \<open>n\<close> bytes sets the end-of-file indicator (read errors are
  not modelled). \<open>store\<close> puts the bytes at the start of the buffer, \<open>memset\<close> is
  \<^verbatim>\<open>memset(buf + off, v, n)\<close>.\<close>

definition fread :: "nat \<Rightarrow> FILE_in \<Rightarrow> byte list \<times> FILE_in" where
  "fread n f =
     (let got = take n (drop (pos f) (content f))
      in (got, f\<lparr>pos := pos f + length got, at_eof := at_eof f \<or> length got < n\<rparr>))"

definition store :: "byte list \<Rightarrow> (nat \<Rightarrow> byte) \<Rightarrow> (nat \<Rightarrow> byte)" where
  "store bs buf = (\<lambda>i. if i < length bs then bs ! i else buf i)"

definition memset :: "(nat \<Rightarrow> byte) \<Rightarrow> nat \<Rightarrow> byte \<Rightarrow> nat \<Rightarrow> (nat \<Rightarrow> byte)" where
  "memset buf off v n = (\<lambda>i. if off \<le> i \<and> i < off + n then v else buf i)"

text \<open>The inner loop of \<^verbatim>\<open>main\<close>, \<^verbatim>\<open>while (data_size > 0)\<close>; \<open>data\<close> is the offset
  of the cursor in \<^verbatim>\<open>inbuf\<close>.\<close>

partial_function (option) parse_loop ::
  "('c, 'e, 'ps) decoder_lib \<Rightarrow> string \<Rightarrow> nat \<Rightarrow> size_t \<Rightarrow> ('e, 'ps) decode_state
     \<Rightarrow> ('e, 'ps) decode_state outcome option" where
  "parse_loop L outfilename data_off data_size w =
     (if data_size > 0 then
        (case av_parser_parse2 L (parser w) (ctx w) (inbuf w) data_off (size_t_to_int data_size) of
           (ret, (pd, psz), ps, e) \<Rightarrow>
             let w1 = record_call (Parse (inbuf w) data_off (size_t_to_int data_size) ret)
                        (w\<lparr>parser := ps, ctx := e,
                           pkt := (pkt w)\<lparr>pkt_data := pd, pkt_size := psz\<rparr>\<rparr>)
             in
             if ret < 0 then Some (Exited 1 (eprint ''Error while parsing'' w1))
             else
               let data_off' = data_off + nat ret;
                   data_size' = data_size - word_of_int ret
               in
               if pkt_size (pkt w1) \<noteq> 0 then
                 (case decode L (Some (pkt w1)) outfilename w1 of
                    None \<Rightarrow> None
                  | Some (Exited st w2) \<Rightarrow> Some (Exited st w2)
                  | Some (Returned w2) \<Rightarrow> parse_loop L outfilename data_off' data_size' w2)
               else parse_loop L outfilename data_off' data_size' w1)
      else Some (Returned w))"

text \<open>The outer loop of \<^verbatim>\<open>main\<close>, \<^verbatim>\<open>while (!feof(f))\<close>.\<close>

partial_function (option) read_loop ::
  "('c, 'e, 'ps) decoder_lib \<Rightarrow> string \<Rightarrow> ('e, 'ps) decode_state
     \<Rightarrow> ('e, 'ps) decode_state outcome option" where
  "read_loop L outfilename w =
     (if \<not> at_eof (infile w) then
        (case fread INBUF_SIZE (infile w) of (got, f') \<Rightarrow>
           let w1 = w\<lparr>infile := f', inbuf := store got (inbuf w)\<rparr>;
               data_size = (of_nat (length got) :: size_t)
           in
           if data_size = 0 then Some (Returned w1)
           else
             (case parse_loop L outfilename 0 data_size w1 of
                None \<Rightarrow> None
              | Some (Exited st w2) \<Rightarrow> Some (Exited st w2)
              | Some (Returned w2) \<Rightarrow> read_loop L outfilename w2))
      else Some (Returned w))"

text \<open>The state in which \<^verbatim>\<open>main\<close> enters its read loop: the objects it has created,
  the input file just opened, and \<^verbatim>\<open>inbuf\<close> uninitialised but for the padding that
  \<^verbatim>\<open>memset\<close> has cleared.\<close>

definition decode_start ::
  "('c, 'e, 'ps) decoder_lib \<Rightarrow> process \<Rightarrow> 'e \<Rightarrow> 'ps \<Rightarrow> AVFrame \<Rightarrow> AVPacket \<Rightarrow> byte list
     \<Rightarrow> ('e, 'ps) decode_state" where
  "decode_start L p c ps fr pk bytes =
     process.extend p
       (decode_state.fields c ps fr pk \<lparr>content = bytes, pos = 0, at_eof = False\<rparr>
          (memset (garbage L) INBUF_SIZE 0 (AV_INPUT_BUFFER_PADDING_SIZE L)))"

text \<open>\<^verbatim>\<open>main\<close> of \<^verbatim>\<open>video_decode.cpp\<close>: the files present at the start and
  \<^verbatim>\<open>argv\<close> in, the exit status and the final process state out; \<open>None\<close> when the
  process does not come to an end or \<^verbatim>\<open>pgm_save\<close> leaves what C defines.\<close>

definition decode_main ::
  "('c, 'e, 'ps) decoder_lib \<Rightarrow> (string \<Rightarrow> byte list option) \<Rightarrow> string list
     \<Rightarrow> (int \<times> process) option" where
  "decode_main L files argv =
     (let p0 = process0 files in
      if length argv \<le> 3 then
        Some (0, eprint (''Usage: '' @ argv0 argv
                          @ '' <input file> <output file> <codec name>'') p0)
      else
       (let filename = argv ! 1; outfilename = argv ! 2; codec_name = argv ! 3 in
        (case avcodec_find_decoder_by_name L codec_name of
           None \<Rightarrow>
             Some (1, eprint (''Codec '' @ [CHR 0x27] @ codec_name @ [CHR 0x27]
                               @ '' not found'') p0)
         | Some codec \<Rightarrow>
        (case av_parser_init L codec of
           None \<Rightarrow> Some (1, eprint ''parser not found'' p0)
         | Some ps \<Rightarrow>
        (case avcodec_alloc_context3 L codec of
           None \<Rightarrow> Some (1, eprint ''Could not allocate video codec context'' p0)
         | Some c0 \<Rightarrow>
        (case av_frame_alloc L (allocs p0) of
           None \<Rightarrow> Some (1, eprint ''Could not allocate video frame'' (count_alloc p0))
         | Some fr \<Rightarrow>
        (let p1 = count_alloc p0 in
        (case av_packet_alloc L (allocs p1) of
           None \<Rightarrow> Some (1, count_alloc p1)
         | Some pk \<Rightarrow>
        (let p2 = count_alloc p1 in
        (case avcodec_open2 L c0 codec of (r, c1) \<Rightarrow>
        if r < 0 then Some (1, eprint ''Could not open codec'' p2)
        else
        (case fs p2 filename of
           None \<Rightarrow> Some (1, eprint (''Could not open '' @ filename) p2)
         | Some bytes \<Rightarrow>
        (let w0 = decode_start L p2 c1 ps fr pk bytes in
        (case read_loop L outfilename w0 of
           None \<Rightarrow> None
         | Some (Exited st w) \<Rightarrow> Some (st, process.truncate w)
         | Some (Returned w1) \<Rightarrow>
            (case decode L None outfilename w1 of
               None \<Rightarrow> None
             | Some (Exited st w) \<Rightarrow> Some (st, process.truncate w)
             | Some (Returned w2) \<Rightarrow> Some (0, process.truncate w2)))))))))))))))"

section \<open>video_encode.cpp\<close>

text \<open>What only \<^verbatim>\<open>video_encode.cpp\<close> uses. The assignments to the fields of the
  codec context (\<^verbatim>\<open>c->bit_rate = 400000\<close> and so on) act on the engine state through
  \<open>set_params\<close>, and \<open>ctx_width\<close>, \<open>ctx_height\<close>, \<open>ctx_pix_fmt\<close> read the fields
  back. \<open>is_h264\<close> is the test \<^verbatim>\<open>codec->id == AV_CODEC_ID_H264\<close> and
  \<open>set_preset_slow\<close> the call of \<^verbatim>\<open>av_opt_set\<close>. \<open>can_create\<close> tells whether
  \<^verbatim>\<open>fopen(name, "wb")\<close> succeeds.\<close>

record enc_params =
  bit_rate :: int
  par_width :: int
  par_height :: int
  time_base :: "int \<times> int"
  framerate :: "int \<times> int"
  gop_size :: int
  max_b_frames :: int
  pix_fmt :: int

record ('c, 'e) encoder_lib = "('c, 'e) libav" +
  AV_PIX_FMT_YUV420P :: int
  avcodec_find_encoder_by_name :: "string \<Rightarrow> 'c option"
  set_params :: "enc_params \<Rightarrow> 'e \<Rightarrow> 'e"
  ctx_width :: "'e \<Rightarrow> int"
  ctx_height :: "'e \<Rightarrow> int"
  ctx_pix_fmt :: "'e \<Rightarrow> int"
  is_h264 :: "'c \<Rightarrow> bool"
  set_preset_slow :: "'e \<Rightarrow> 'e"
  av_err2str :: "int \<Rightarrow> string"
  can_create :: "string \<Rightarrow> bool"
  av_frame_get_buffer :: "AVFrame \<Rightarrow> int \<times> AVFrame"
  avcodec_send_frame :: "'e \<Rightarrow> AVFrame option \<Rightarrow> int \<times> 'e"
  avcodec_receive_packet :: "'e \<Rightarrow> AVPacket \<Rightarrow> int \<times> AVPacket \<times> 'e"

record 'e encode_state = process +
  enc_ctx :: 'e
  enc_frame :: AVFrame
  enc_pkt :: AVPacket

text \<open>\<^verbatim>\<open>fwrite(pkt->data, 1, pkt->size, outfile)\<close>\<close>

definition packet_bytes :: "AVPacket \<Rightarrow> byte list" where
  "packet_bytes p = (case pkt_data p of None \<Rightarrow> [] | Some d \<Rightarrow> take (nat (pkt_size p)) d)"

text \<open>The \<^verbatim>\<open>while (ret >= 0)\<close> loop of \<^verbatim>\<open>encode\<close>. A packet \<open>p\<close> that
  \<^verbatim>\<open>avcodec_receive_packet\<close> delivers is entered in the list \<open>delivered\<close>.\<close>

partial_function (option) encode_loop ::
  "('c, 'e) encoder_lib \<Rightarrow> string \<Rightarrow> int \<Rightarrow> 'e encode_state \<Rightarrow> 'e encode_state outcome option" where
  "encode_loop L outfile ret w =
     (if ret \<ge> 0 then
        (case avcodec_receive_packet L (enc_ctx w) (enc_pkt w) of (ret', p, e) \<Rightarrow>
           let w1 = record_call (ReceivePacket ret') (w\<lparr>enc_ctx := e, enc_pkt := p\<rparr>) in
           if ret' = AVERROR_EAGAIN L \<or> ret' = AVERROR_EOF L then Some (Returned w1)
           else if ret' < 0 then Some (Exited 1 (eprint ''Error during encoding'' w1))
           else
             let w2 = oprint (''Write packet '' @ show_int (pkt_pts (enc_pkt w1)) @ '' (size=''
                                @ show_int_w 5 (pkt_size (enc_pkt w1)) @ '')'')
                        (w1\<lparr>delivered := delivered w1 @ [p]\<rparr>);
                 w3 = fwrite (packet_bytes (enc_pkt w2)) outfile w2
             in encode_loop L outfile ret' (w3\<lparr>enc_pkt := av_packet_unref L (enc_pkt w3)\<rparr>))
      else Some (Returned w))"

definition encode ::
  "('c, 'e) encoder_lib \<Rightarrow> AVFrame option \<Rightarrow> string \<Rightarrow> 'e encode_state
     \<Rightarrow> 'e encode_state outcome option" where
  "encode L fr outfile w =
     (let w0 = (case fr of None \<Rightarrow> w | Some f \<Rightarrow> oprint (''Send frame '' @ show_int (pts f)) w) in
      case avcodec_send_frame L (enc_ctx w0) fr of (ret, e) \<Rightarrow>
        let w1 = record_call (SendFrame fr ret) (w0\<lparr>enc_ctx := e\<rparr>) in
        if ret < 0 then Some (Exited 1 (eprint ''Error sending a frame for encoding'' w1))
        else encode_loop L outfile ret w1)"

text \<open>\<^verbatim>\<open>uint8_t endcode[] = {0, 0, 1, 0xb7}\<close>\<close>

definition endcode :: "byte list" where
  "endcode = [0, 0, 1, 0xb7]"

text \<open>The dummy image of frame \<open>i\<close>: \<^verbatim>\<open>frame->data[pl][idx] = v\<close> for every pixel of
  the three planes, in the order of the source's loops (a store outside the plane is
  undefined in C and leaves the plane as it is here).\<close>

definition put_pixel :: "nat \<Rightarrow> int \<Rightarrow> byte \<Rightarrow> AVFrame \<Rightarrow> AVFrame" where
  "put_pixel pl idx v fr = fr\<lparr>data := (data fr)(pl := (data fr pl)[nat idx := v])\<rparr>"

definition draw_dummy :: "int \<Rightarrow> int \<Rightarrow> int \<Rightarrow> AVFrame \<Rightarrow> AVFrame" where
  "draw_dummy i w h fr =
     (let fr1 =
        fold (\<lambda>y. fold (\<lambda>x f. put_pixel 0 (int y * linesize f 0 + int x)
                                 (of_int (int x + int y + i * 3)) f)
                     [0..<nat w])
          [0..<nat h] fr
      in
        fold (\<lambda>y. fold (\<lambda>x f. put_pixel 2 (int y * linesize f 2 + int x)
                                 (of_int (64 + int x + i * 5))
                                 (put_pixel 1 (int y * linesize f 1 + int x)
                                    (of_int (128 + int y + i * 2)) f))
                     [0..<nat (w div 2)])
          [0..<nat (h div 2)] fr1)"

text \<open>The loop \<^verbatim>\<open>for (i = 0; i < 25; i++)\<close> of \<^verbatim>\<open>main\<close>.\<close>

function encode_frames ::
  "('c, 'e) encoder_lib \<Rightarrow> string \<Rightarrow> int \<Rightarrow> 'e encode_state \<Rightarrow> 'e encode_state outcome option" where
  "encode_frames L outfile i w =
     (if i < 25 then
        (let fr = (draw_dummy i (ctx_width L (enc_ctx w)) (ctx_height L (enc_ctx w))
                     (enc_frame w))\<lparr>pts := i\<rparr>
         in
         (case encode L (Some fr) outfile (w\<lparr>enc_frame := fr\<rparr>) of
            None \<Rightarrow> None
          | Some (Exited st w') \<Rightarrow> Some (Exited st w')
          | Some (Returned w') \<Rightarrow> encode_frames L outfile (i + 1) w'))
      else Some (Returned w))"
  by pat_completeness auto
termination
  by (relation "measure (\<lambda>(L, outfile, i, w). nat (25 - i))") auto

declare encode_frames.simps [simp del]

definition encode_start :: "process \<Rightarrow> 'e \<Rightarrow> AVFrame \<Rightarrow> AVPacket \<Rightarrow> 'e encode_state" where
  "encode_start p c fr pk = process.extend p (encode_state.fields c fr pk)"

text \<open>\<^verbatim>\<open>main\<close> of \<^verbatim>\<open>video_encode.cpp\<close>.\<close>

definition encode_main ::
  "('c, 'e) encoder_lib \<Rightarrow> (string \<Rightarrow> byte list option) \<Rightarrow> string list
     \<Rightarrow> (int \<times> process) option" where
  "encode_main L files argv =
     (let p0 = process0 files in
      if length argv \<le> 2 then
        Some (0, eprint (''Usage: '' @ argv0 argv @ '' <output file> <codec name>'') p0)
      else
       (let filename = argv ! 1; codec_name = argv ! 2 in
        (case avcodec_find_encoder_by_name L codec_name of
           None \<Rightarrow>
             Some (1, eprint (''Codec '' @ [CHR 0x27] @ codec_name @ [CHR 0x27]
                               @ '' not found'') p0)
         | Some codec \<Rightarrow>
        (case avcodec_alloc_context3 L codec of
           None \<Rightarrow> Some (1, eprint ''Could not allocate video codec context'' p0)
         | Some c0 \<Rightarrow>
        (let c1 = set_params L
                    \<lparr>bit_rate = 400000, par_width = 352, par_height = 288,
                     time_base = (1, 25), framerate = (25, 1), gop_size = 10,
                     max_b_frames = 0, pix_fmt = AV_PIX_FMT_YUV420P L\<rparr> c0;
             c2 = (if is_h264 L codec then set_preset_slow L c1 else c1)
         in
        (case avcodec_open2 L c2 codec of (ret, c3) \<Rightarrow>
        if ret < 0 then Some (1, eprint (''Could not open codec: '' @ av_err2str L ret) p0)
        else if \<not> can_create L filename then
          Some (1, eprint (''Could not open '' @ filename) p0)
        else
        (let p1 = fopen_w filename p0 in
        (case av_packet_alloc L (allocs p1) of
           None \<Rightarrow> Some (1, count_alloc p1)
         | Some pk \<Rightarrow>
        (let p2 = count_alloc p1 in
        (case av_frame_alloc L (allocs p2) of
           None \<Rightarrow> Some (1, eprint ''Could not allocate video frame'' (count_alloc p2))
         | Some fr0 \<Rightarrow>
        (let p3 = count_alloc p2;
             fr1 = fr0\<lparr>format := ctx_pix_fmt L c3, width := ctx_width L c3,
                       height := ctx_height L c3\<rparr>
         in
        (case av_frame_get_buffer L fr1 of (ret', fr2) \<Rightarrow>
        if ret' < 0 then Some (1, eprint ''Could not allocate the video frame data'' p3)
        else
        (case encode_frames L filename 0 (encode_start p3 c3 fr2 pk) of
           None \<Rightarrow> None
         | Some (Exited st w) \<Rightarrow> Some (st, process.truncate w)
         | Some (Returned w1) \<Rightarrow>
            (case encode L None filename w1 of
               None \<Rightarrow> None
             | Some (Exited st w) \<Rightarrow> Some (st, process.truncate w)
             | Some (Returned w2) \<Rightarrow>
                 Some (0, process.truncate (fwrite endcode filename w2))))))))))))))))"

section \<open>video_hw_decode.cpp\<close>

text \<open>What only \<^verbatim>\<open>video_hw_decode.cpp\<close> uses. \<open>'ic\<close> is the state behind
  \<^verbatim>\<open>AVFormatContext\<close>, \<open>'ty\<close> is \<^verbatim>\<open>enum AVHWDeviceType\<close> without
  \<^verbatim>\<open>AV_HWDEVICE_TYPE_NONE\<close> (which is \<open>None\<close>), \<open>'dev\<close> the device context.
  \<open>av_find_best_stream\<close> returns its result and the decoder it stores through its
  pointer argument; \<open>avcodec_parameters_to_context e ic i\<close> is the call with the
  parameters of stream \<open>i\<close> of \<open>ic\<close>; \<open>set_hw_device_ctx\<close> is the assignment to
  \<^verbatim>\<open>ctx->hw_device_ctx\<close>; \<open>garbage_packet\<close> is the uninitialised \<^verbatim>\<open>AVPacket packet\<close>
  of \<^verbatim>\<open>main\<close>. \<open>av_image_copy_to_buffer n data linesize fmt w h align\<close> returns its
  result and the content of the destination buffer of \<open>n\<close> bytes.\<close>

record 'ty AVCodecHWConfig =
  methods :: int
  device_type :: 'ty
  cfg_pix_fmt :: int

record ('c, 'e, 'ic, 'ty, 'dev) hw_lib = "('c, 'e) decoding_lib" +
  AV_CODEC_HW_CONFIG_METHOD_HW_DEVICE_CTX :: int
  av_hwdevice_find_type_by_name :: "string \<Rightarrow> 'ty option"
  av_hwdevice_iterate_types :: "'ty option \<Rightarrow> 'ty option"
  av_hwdevice_get_type_name :: "'ty \<Rightarrow> string"
  avformat_open_input :: "string \<Rightarrow> 'ic option"
  avformat_find_stream_info :: "'ic \<Rightarrow> int \<times> 'ic"
  av_find_best_stream :: "'ic \<Rightarrow> int \<times> 'c"
  avcodec_get_hw_config :: "'c \<Rightarrow> int \<Rightarrow> 'ty AVCodecHWConfig option"
  codec_name :: "'c \<Rightarrow> string"
  avcodec_parameters_to_context :: "'e \<Rightarrow> 'ic \<Rightarrow> int \<Rightarrow> int \<times> 'e"
  av_hwdevice_ctx_create :: "'ty \<Rightarrow> int \<times> 'dev"
  set_hw_device_ctx :: "'dev \<Rightarrow> 'e \<Rightarrow> 'e"
  garbage_packet :: AVPacket
  av_read_frame :: "'ic \<Rightarrow> AVPacket \<Rightarrow> int \<times> AVPacket \<times> 'ic"
  av_hwframe_transfer_data :: "AVFrame \<Rightarrow> AVFrame \<Rightarrow> int \<times> AVFrame"
  av_image_get_buffer_size :: "int \<Rightarrow> int \<Rightarrow> int \<Rightarrow> int \<Rightarrow> int"
  av_image_copy_to_buffer ::
    "int \<Rightarrow> (nat \<Rightarrow> byte list) \<Rightarrow> (nat \<Rightarrow> int) \<Rightarrow> int \<Rightarrow> int \<Rightarrow> int \<Rightarrow> int \<Rightarrow> int \<times> byte list"

text \<open>The globals \<^verbatim>\<open>hw_pix_fmt\<close> and \<^verbatim>\<open>output_file\<close> (by the name of the file) and
  the objects of \<^verbatim>\<open>main\<close>, on top of the process state.\<close>

record ('e, 'ic) hw_state = process +
  decoder_ctx :: 'e
  input_ctx :: 'ic
  packet :: AVPacket
  hw_pix_fmt :: int
  output_file :: string

definition hw_decoder_init ::
  "('c, 'e, 'ic, 'ty, 'dev) hw_lib \<Rightarrow> 'e \<Rightarrow> 'ty \<Rightarrow> process \<Rightarrow> int \<times> 'e \<times> process" where
  "hw_decoder_init L c type p =
     (case av_hwdevice_ctx_create L type of (err, dev) \<Rightarrow>
        if err < 0 then (err, c, eprint ''Failed to create specified HW device.'' p)
        else (err, set_hw_device_ctx L dev c, p))"

text \<open>One pass through the body of \<^verbatim>\<open>while (true)\<close> in \<^verbatim>\<open>decode_write\<close> ends either
  in \<^verbatim>\<open>return 0\<close> or at the label \<^verbatim>\<open>fail\<close> with a value of \<^verbatim>\<open>ret\<close>; the label is
  reached by \<^verbatim>\<open>goto\<close> and also by falling through after a frame has been written.\<close>

datatype pass = Return int | At_fail int

text \<open>\<^verbatim>\<open>fwrite\<close> is taken to write all \<open>size\<close> bytes and to return \<open>size\<close>; the result
  of \<^verbatim>\<open>fopen\<close> for the output file is not checked by the source, and the model covers
  the executions where it succeeded.\<close>

definition decode_write_body ::
  "('c, 'e, 'ic, 'ty, 'dev) hw_lib \<Rightarrow> ('e, 'ic) hw_state \<Rightarrow> pass \<times> ('e, 'ic) hw_state" where
  "decode_write_body L w =
     (case av_frame_alloc L (allocs w) of
        None \<Rightarrow> (At_fail (AVERROR_ENOMEM L), eprint ''Can not alloc frame'' (count_alloc w))
      | Some frame0 \<Rightarrow>
     (let w1 = count_alloc w in
     (case av_frame_alloc L (allocs w1) of
        None \<Rightarrow> (At_fail (AVERROR_ENOMEM L), eprint ''Can not alloc frame'' (count_alloc w1))
      | Some sw_frame0 \<Rightarrow>
     (let w2 = count_alloc w1 in
     (case avcodec_receive_frame L (decoder_ctx w2) frame0 of (ret, fr, e) \<Rightarrow>
      (let w3 = record_call (ReceiveFrame ret) (w2\<lparr>decoder_ctx := e\<rparr>) in
       if ret = AVERROR_EAGAIN L \<or> ret = AVERROR_EOF L then (Return 0, w3)
       else if ret < 0 then (At_fail ret, eprint ''Error while decoding'' w3)
       else
        (case (if format fr = hw_pix_fmt w3
               then (case av_hwframe_transfer_data L sw_frame0 fr of (ret1, sw_frame) \<Rightarrow>
                       (let w4 = record_call (TransferData sw_frame0 fr ret1) w3 in
                        if ret1 < 0
                        then Inl (ret1, eprint ''Error transferring the data to system memory'' w4)
                        else Inr (sw_frame, w4)))
               else Inr (fr, w3)) of
           Inl (ret1, w4) \<Rightarrow> (At_fail ret1, w4)
         | Inr (tmp_frame, w4) \<Rightarrow>
          (let size = av_image_get_buffer_size L (format tmp_frame) (width tmp_frame)
                        (height tmp_frame) 1
           in
           if \<not> av_malloc L (allocs w4) (unat (word_of_int size :: 64 word))
           then (At_fail (AVERROR_ENOMEM L), eprint ''Can not alloc buffer'' (count_alloc w4))
           else
            (case av_image_copy_to_buffer L size (data tmp_frame) (linesize tmp_frame)
                    (format tmp_frame) (width tmp_frame) (height tmp_frame) 1 of
               (ret2, buffer) \<Rightarrow>
                (let w5 = record_call (CopyToBuffer tmp_frame size) (count_alloc w4) in
                 if ret2 < 0 then (At_fail ret2, eprint ''Can not copy image to buffer'' w5)
                 else
                  (let w6 = fwrite (take (nat size) buffer) (output_file w5) w5 in
                   if size < 0 then (At_fail size, eprint ''Failed to dump raw data.'' w6)
                   else (At_fail size, w6))))))))))))"

partial_function (option) decode_write_loop ::
  "('c, 'e, 'ic, 'ty, 'dev) hw_lib \<Rightarrow> ('e, 'ic) hw_state \<Rightarrow> (int \<times> ('e, 'ic) hw_state) option" where
  "decode_write_loop L w =
     (case decode_write_body L w of
        (Return r, w') \<Rightarrow> Some (r, w')
      | (At_fail ret, w') \<Rightarrow> if ret < 0 then Some (ret, w') else decode_write_loop L w')"

definition decode_write ::
  "('c, 'e, 'ic, 'ty, 'dev) hw_lib \<Rightarrow> AVPacket \<Rightarrow> ('e, 'ic) hw_state
     \<Rightarrow> (int \<times> ('e, 'ic) hw_state) option" where
  "decode_write L pk w =
     (case avcodec_send_packet L (decoder_ctx w) (Some pk) of (ret, e) \<Rightarrow>
        (let w1 = record_call (SendPacket (Some pk) ret) (w\<lparr>decoder_ctx := e\<rparr>) in
         if ret < 0 then Some (ret, eprint ''Error during decoding'' w1)
         else decode_write_loop L w1))"

text \<open>The loops of \<^verbatim>\<open>main\<close>: the listing of the device types, the search
  \<^verbatim>\<open>for (i = 0;; i++)\<close> for the hardware configuration (\<open>Some None\<close> when the library
  runs out of configurations) and the loop \<^verbatim>\<open>while (ret >= 0)\<close> over the packets.\<close>

partial_function (option) list_device_types ::
  "('c, 'e, 'ic, 'ty, 'dev) hw_lib \<Rightarrow> 'ty option \<Rightarrow> process \<Rightarrow> process option" where
  "list_device_types L t p =
     (case av_hwdevice_iterate_types L t of
        None \<Rightarrow> Some p
      | Some t' \<Rightarrow>
          list_device_types L (Some t') (eprint ('' '' @ av_hwdevice_get_type_name L t') p))"

partial_function (option) find_hw_config ::
  "('c, 'e, 'ic, 'ty, 'dev) hw_lib \<Rightarrow> 'c \<Rightarrow> 'ty \<Rightarrow> int \<Rightarrow> int option option" where
  "find_hw_config L decoder type i =
     (case avcodec_get_hw_config L decoder i of
        None \<Rightarrow> Some None
      | Some config \<Rightarrow>
          if (methods config AND AV_CODEC_HW_CONFIG_METHOD_HW_DEVICE_CTX L) \<noteq> 0
             \<and> device_type config = type
          then Some (Some (cfg_pix_fmt config))
          else find_hw_config L decoder type (i + 1))"

definition unref_packet ::
  "('c, 'e, 'ic, 'ty, 'dev) hw_lib \<Rightarrow> ('e, 'ic) hw_state \<Rightarrow> ('e, 'ic) hw_state" where
  "unref_packet L w = record_call (Unref (packet w)) (w\<lparr>packet := av_packet_unref L (packet w)\<rparr>)"

partial_function (option) hw_read_loop ::
  "('c, 'e, 'ic, 'ty, 'dev) hw_lib \<Rightarrow> int \<Rightarrow> int \<Rightarrow> ('e, 'ic) hw_state
     \<Rightarrow> (int \<times> ('e, 'ic) hw_state) option" where
  "hw_read_loop L video_stream ret w =
     (if ret \<ge> 0 then
        (case av_read_frame L (input_ctx w) (packet w) of (r, pk, ic) \<Rightarrow>
           (let w1 = record_call (ReadFrame r pk) (w\<lparr>input_ctx := ic, packet := pk\<rparr>) in
            if r < 0 then Some (r, w1)
            else if video_stream = stream_index (packet w1) then
              (case decode_write L (packet w1) w1 of
                 None \<Rightarrow> None
               | Some (r', w2) \<Rightarrow> hw_read_loop L video_stream r' (unref_packet L w2))
            else hw_read_loop L video_stream r (unref_packet L w1)))
      else Some (ret, w))"

definition hw_start ::
  "process \<Rightarrow> 'e \<Rightarrow> 'ic \<Rightarrow> AVPacket \<Rightarrow> int \<Rightarrow> string \<Rightarrow> ('e, 'ic) hw_state" where
  "hw_start p c ic pk fmt name = process.extend p (hw_state.fields c ic pk fmt name)"

text \<open>\<^verbatim>\<open>main\<close> of \<^verbatim>\<open>video_hw_decode.cpp\<close>; the integer is the value \<^verbatim>\<open>main\<close> returns.\<close>

definition hw_main ::
  "('c, 'e, 'ic, 'ty, 'dev) hw_lib \<Rightarrow> (string \<Rightarrow> byte list option) \<Rightarrow> string list
     \<Rightarrow> (int \<times> process) option" where
  "hw_main L files argv =
     (let p0 = process0 files in
      if length argv < 4 then
        Some (- 1, eprint (''Usage: '' @ argv0 argv
                            @ '' <device type> <input file> <output file>'') p0)
      else
       (case av_hwdevice_find_type_by_name L (argv ! 1) of
          None \<Rightarrow>
            (case list_device_types L None
                    (eprint ''Available device types:''
                       (eprint (''Device type '' @ argv ! 1 @ '' is not supported.'') p0)) of
               None \<Rightarrow> None
             | Some p1 \<Rightarrow> Some (- 1, eprint [] p1))
        | Some type \<Rightarrow>
       (case avformat_open_input L (argv ! 2) of
          None \<Rightarrow>
            Some (- 1, eprint (''Cannot open input file '' @ [CHR 0x27] @ argv ! 2 @ [CHR 0x27]) p0)
        | Some ic0 \<Rightarrow>
       (case avformat_find_stream_info L ic0 of (r1, ic1) \<Rightarrow>
       if r1 < 0 then Some (- 1, eprint ''Cannot find input stream information.'' p0)
       else
       (case av_find_best_stream L ic1 of (ret, decoder) \<Rightarrow>
       (let p1 = record_call (FindBestStream ret) p0 in
       if ret < 0 then Some (- 1, eprint ''Cannot find a video stream in the input file'' p1)
       else
       (let video_stream = ret in
       (case find_hw_config L decoder type 0 of
          None \<Rightarrow> None
        | Some None \<Rightarrow>
            Some (- 1, eprint (''Decoder '' @ codec_name L decoder
                                @ '' does not support device type ''
                                @ av_hwdevice_get_type_name L type @ ''.'') p1)
        | Some (Some fmt) \<Rightarrow>
       (case avcodec_alloc_context3 L decoder of
          None \<Rightarrow> Some (AVERROR_ENOMEM L, p1)
        | Some c0 \<Rightarrow>
       (case avcodec_parameters_to_context L c0 ic1 video_stream of (r2, c1) \<Rightarrow>
       if r2 < 0 then Some (- 1, p1)
       else
       (case hw_decoder_init L c1 type p1 of (r3, c2, p2) \<Rightarrow>
       if r3 < 0 then Some (- 1, p2)
       else
       (case avcodec_open2 L c2 decoder of (r4, c3) \<Rightarrow>
       if r4 < 0 then
         Some (- 1, eprint (''Failed to open codec for stream #'' @ show_int video_stream) p2)
       else
       (let w0 = hw_start (fopen_w (argv ! 3) p2) c3 ic1 (garbage_packet L) fmt (argv ! 3) in
       (case hw_read_loop L video_stream r4 w0 of
          None \<Rightarrow> None
        | Some (r5, w1) \<Rightarrow>
           (case decode_write L ((packet w1)\<lparr>pkt_data := None, pkt_size := 0\<rparr>)
                   (w1\<lparr>packet := (packet w1)\<lparr>pkt_data := None, pkt_size := 0\<rparr>\<rparr>) of
              None \<Rightarrow> None
            | Some (r6, w2) \<Rightarrow>
                Some (0, process.truncate (unref_packet L w2)))))))))))))))))"

text \<open>Modelled from the spec: \<^verbatim>\<open>av_image_get_buffer_size\<close> and
  \<^verbatim>\<open>av_image_copy_to_buffer\<close> belong to libavutil, which is not part of the
  repository. The spec (4.4, steps 3 and 4) has the first compute the minimal packed
  buffer size implied by the logical width, height and pixel format, and the second
  copy the plane data into the packed buffer, respecting each plane's stride, so that
  stride padding is stripped. What a pixel format implies for a width and a height is
  a table of the library: for each plane, the number of bytes in a row and the number
  of rows (the parameter \<open>geo\<close> below is the table's entry).\<close>

definition packed_size :: "(nat \<times> nat) list \<Rightarrow> nat" where
  "packed_size geo = sum_list (map (\<lambda>(row_bytes, rows). row_bytes * rows) geo)"

definition packed_plane :: "nat \<Rightarrow> nat \<Rightarrow> nat \<Rightarrow> byte list \<Rightarrow> byte list" where
  "packed_plane row_bytes rows stride plane =
     concat (map (\<lambda>r. take row_bytes (drop (r * stride) plane)) [0..<rows])"

definition packed_image ::
  "(nat \<times> nat) list \<Rightarrow> (nat \<Rightarrow> byte list) \<Rightarrow> (nat \<Rightarrow> int) \<Rightarrow> byte list" where
  "packed_image geo planes strides =
     concat (map (\<lambda>pl. packed_plane (fst (geo ! pl)) (snd (geo ! pl)) (nat (strides pl))
                          (planes pl))
               [0..<length geo])"

text \<open>The library does what the spec says for the frame \<open>fr\<close>, whose format, width
  and height imply the geometry \<open>geo\<close>: asked with alignment 1 it reports the packed
  size, and the copy into a buffer of that size succeeds and fills it with the packed
  image. (For another format or size the library may well report an error.)\<close>

definition image_lib_conforms ::
  "('c, 'e, 'ic, 'ty, 'dev) hw_lib \<Rightarrow> (nat \<times> nat) list \<Rightarrow> AVFrame \<Rightarrow> bool" where
  "image_lib_conforms L geo fr \<longleftrightarrow>
     av_image_get_buffer_size L (format fr) (width fr) (height fr) 1 = int (packed_size geo)
   \<and> av_image_copy_to_buffer L (int (packed_size geo)) (data fr) (linesize fr)
         (format fr) (width fr) (height fr) 1
       = (int (packed_size geo), packed_image geo (data fr) (linesize fr))"

text \<open>A frame holds the rows its geometry promises: in every plane a row fits in the
  stride and the last row lies inside the plane.\<close>

definition frame_fits :: "(nat \<times> nat) list \<Rightarrow> AVFrame \<Rightarrow> bool" where
  "frame_fits geo fr \<longleftrightarrow>
     (\<forall>pl\<in>{0..<length geo}.
        fst (geo ! pl) \<le> nat (linesize fr pl)
      \<and> snd (geo ! pl) * nat (linesize fr pl) \<le> length (data fr pl))"

text \<open>The frame that \<^verbatim>\<open>decode_write\<close> goes on with (\<^verbatim>\<open>tmp_frame\<close>) for a received
  frame \<open>fr\<close>, when the freshly allocated \<^verbatim>\<open>sw_frame\<close> is \<open>sw0\<close> and the negotiated
  format is \<open>hw_fmt\<close>.\<close>

definition resolved ::
  "('c, 'e, 'ic, 'ty, 'dev) hw_lib \<Rightarrow> int \<Rightarrow> AVFrame \<Rightarrow> AVFrame \<Rightarrow> AVFrame \<Rightarrow> bool" where
  "resolved L hw_fmt sw0 fr tmp \<longleftrightarrow>
     (if format fr = hw_fmt
      then 0 \<le> fst (av_hwframe_transfer_data L sw0 fr)
           \<and> tmp = snd (av_hwframe_transfer_data L sw0 fr)
      else tmp = fr)"

section \<open>Reading the call history\<close>

text \<open>The verdict of a drain loop that started with history \<open>cs0\<close> and error stream
  \<open>es0\<close> and ended with outcome \<open>r\<close>: the loop made one or more receive calls; every
  call but the last produced an output (a result that is not negative and is neither
  code); the last result \<open>x\<close> decides the outcome. When \<open>x\<close> is \<open>eagain\<close> (Starved) or
  \<open>eofc\<close> (Exhausted) the loop returned to its caller and wrote nothing to the error
  stream; otherwise \<open>x\<close> is negative, the process exited with status 1 and the error
  stream got the one line \<open>msg\<close>.\<close>

definition drained ::
  "int \<Rightarrow> int \<Rightarrow> (int \<Rightarrow> call) \<Rightarrow> string \<Rightarrow> call list \<Rightarrow> string list
     \<Rightarrow> 'a process_scheme outcome \<Rightarrow> bool" where
  "drained eagain eofc rcv msg cs0 es0 r \<longleftrightarrow>
     (\<exists>rs x. calls (final r) = cs0 @ map rcv rs @ [rcv x]
        \<and> (\<forall>y\<in>set rs. 0 \<le> y \<and> y \<noteq> eagain \<and> y \<noteq> eofc)
        \<and> (case r of
              Returned w' \<Rightarrow> (x = eagain \<or> x = eofc) \<and> err_stream w' = es0
            | Exited st w' \<Rightarrow> st = 1 \<and> x < 0 \<and> x \<noteq> eagain \<and> x \<noteq> eofc
                 \<and> err_stream w' = es0 @ [msg]))"

text \<open>The parser's side of its contract: it never reports more bytes consumed than it
  was offered.\<close>

definition parser_bounded :: "('c, 'e, 'ps) decoder_lib \<Rightarrow> bool" where
  "parser_bounded L \<longleftrightarrow>
     (\<forall>ps e buf off n. 0 < n \<longrightarrow> fst (av_parser_parse2 L ps e buf off n) \<le> n)"

text \<open>Following the parse calls of a history through the bytes of the input file.
  \<open>feed rest c\<close> checks one call against the part \<open>rest\<close> of the file that no earlier
  call has consumed: the \<open>n\<close> bytes offered at the cursor must be the first \<open>n\<close> bytes
  of \<open>rest\<close>, and the consumed length must not exceed \<open>n\<close>; what is left after the call
  is \<open>rest\<close> without the consumed bytes (none for a negative result). \<open>walk\<close> does
  this for a whole history and gives \<open>None\<close> as soon as one call fails the check.\<close>

fun feed :: "byte list \<Rightarrow> call \<Rightarrow> byte list option" where
  "feed rest (Parse buf off n r) =
     (if 0 < n \<and> r \<le> n \<and> map buf [off..<off + nat n] = take (nat n) rest
      then Some (drop (nat r) rest) else None)"
| "feed rest _ = Some rest"

definition walk :: "byte list \<Rightarrow> call list \<Rightarrow> byte list option" where
  "walk bytes cs = fold (\<lambda>c acc. Option.bind acc (\<lambda>rest. feed rest c)) cs (Some bytes)"

text \<open>What a parse call may see of the buffer: the padding region behind the chunk
  area holds zeros, and the bytes offered lie inside the chunk area.\<close>

fun pad_ok :: "nat \<Rightarrow> call \<Rightarrow> bool" where
  "pad_ok padding (Parse buf off n r) =
     ((\<forall>i\<in>{INBUF_SIZE..<INBUF_SIZE + padding}. buf i = 0)
      \<and> 0 < n \<and> off + nat n \<le> INBUF_SIZE)"
| "pad_ok padding _ = True"

fun is_parse :: "call \<Rightarrow> bool" where
  "is_parse (Parse buf off n r) = True"
| "is_parse c = False"

text \<open>The invariant of the two loops of \<^verbatim>\<open>main\<close> in \<^verbatim>\<open>video_decode.cpp\<close>, for a
  cursor at offset \<open>data_off\<close> with \<open>k\<close> bytes of the current chunk left: the \<open>k\<close>
  bytes at the cursor are the last \<open>k\<close> bytes read from the file, the padding holds
  zeros, and the parse calls made so far have consumed the file up to those bytes.\<close>

definition chunk_inv :: "nat \<Rightarrow> nat \<Rightarrow> nat \<Rightarrow> ('e, 'ps) decode_state \<Rightarrow> bool" where
  "chunk_inv padding data_off k w \<longleftrightarrow>
     k \<le> pos (infile w) \<and> pos (infile w) \<le> length (content (infile w))
   \<and> data_off + k \<le> INBUF_SIZE
   \<and> (at_eof (infile w) \<longrightarrow> pos (infile w) = length (content (infile w)))
   \<and> (\<forall>i<k. inbuf w (data_off + i) = content (infile w) ! (pos (infile w) - k + i))
   \<and> (\<forall>i\<in>{INBUF_SIZE..<INBUF_SIZE + padding}. inbuf w i = 0)
   \<and> walk (content (infile w)) (calls w)
       = Some (drop (pos (infile w) - k) (content (infile w)))
   \<and> (\<forall>c\<in>set (calls w). pad_ok padding c)"

definition trace_ok :: "nat \<Rightarrow> byte list \<Rightarrow> call list \<Rightarrow> bool" where
  "trace_ok padding bytes cs \<longleftrightarrow>
     (\<exists>rest. walk bytes cs = Some rest) \<and> (\<forall>c\<in>set cs. pad_ok padding c)"

text \<open>The calls that the loops of \<^verbatim>\<open>main\<close> in \<^verbatim>\<open>video_decode.cpp\<close> make: parse
  calls, submissions of a packet and receive calls. \<open>loop_effect w r\<close> says what a
  loop that started in \<open>w\<close> and ended with outcome \<open>r\<close> has done to the history and
  to the error stream: only such calls were added, and the error stream got one line
  when the loop ended the process (with status 1) and nothing otherwise.\<close>

fun data_call :: "call \<Rightarrow> bool" where
  "data_call (Parse buf off n r) = True"
| "data_call (SendPacket (Some p) s) = True"
| "data_call (ReceiveFrame x) = True"
| "data_call c = False"

definition loop_effect :: "'a process_scheme \<Rightarrow> 'a process_scheme outcome \<Rightarrow> bool" where
  "loop_effect w r \<longleftrightarrow>
     (\<exists>cs. calls (final r) = calls w @ cs \<and> (\<forall>c\<in>set cs. data_call c))
   \<and> (case r of
         Returned w' \<Rightarrow> err_stream w' = err_stream w
       | Exited st w' \<Rightarrow> st = 1 \<and> (\<exists>m. err_stream w' = err_stream w @ [m]))"

text \<open>The engine states reached by the first receive calls made from state \<open>e\<close>, as
  long as each call produces a frame and for at most \<open>n\<close> calls.\<close>

fun produced_states ::
  "('c, 'e, 'l) decoding_lib_scheme \<Rightarrow> 'e \<Rightarrow> AVFrame \<Rightarrow> nat \<Rightarrow> 'e list" where
  "produced_states L e fr 0 = []"
| "produced_states L e fr (Suc n) =
     (case avcodec_receive_frame L e fr of (r, f, e') \<Rightarrow>
        if 0 \<le> r \<and> r \<noteq> AVERROR_EAGAIN L \<and> r \<noteq> AVERROR_EOF L
        then e' # produced_states L e' f n else [])"

text \<open>The engine's side of the frame count: a receive call that produces a frame adds
  one to \<^verbatim>\<open>frame_number\<close> (in the arithmetic of a 32-bit \<^verbatim>\<open>int\<close>), and neither a
  receive call that produces no frame, nor a submission, nor a parse call changes it.\<close>

definition frame_counting :: "('c, 'e, 'ps) decoder_lib \<Rightarrow> bool" where
  "frame_counting L \<longleftrightarrow>
     (\<forall>e p s e'. avcodec_send_packet L e p = (s, e') \<longrightarrow> frame_number L e' = frame_number L e)
   \<and> (\<forall>ps e buf off n r d ps' e'. av_parser_parse2 L ps e buf off n = (r, d, ps', e') \<longrightarrow>
         frame_number L e' = frame_number L e)
   \<and> (\<forall>e fr r f e'. avcodec_receive_frame L e fr = (r, f, e') \<longrightarrow>
         frame_number L e' =
           (if 0 \<le> r \<and> r \<noteq> AVERROR_EAGAIN L \<and> r \<noteq> AVERROR_EOF L
            then frame_number L e + 1 else frame_number L e))"

text \<open>The name that \<^verbatim>\<open>decode\<close> gives to the artifact of a frame when the engine's
  count is \<open>n\<close>, and the invariant of the loops of \<^verbatim>\<open>video_decode.cpp\<close> for a run
  whose engine count was \<open>n0\<close> when decoding started: the artifacts created so far
  are named by the counts \<open>n0 + 1\<close>, \<open>n0 + 2\<close>, ... in this order, and the engine's
  count is \<open>n0\<close> plus the number of artifacts.\<close>

definition artifact_name :: "string \<Rightarrow> 32 word \<Rightarrow> string" where
  "artifact_name base n = snprintf 1024 (base @ ''-'' @ show_int (sint n))"

definition named_from ::
  "('c, 'e, 'ps) decoder_lib \<Rightarrow> string \<Rightarrow> 32 word \<Rightarrow> ('e, 'ps) decode_state \<Rightarrow> bool" where
  "named_from L base n0 w \<longleftrightarrow>
     created w = map (\<lambda>k. artifact_name base (n0 + word_of_nat (Suc k)))
                   [0..<length (created w)]
   \<and> frame_number L (ctx w) = n0 + word_of_nat (length (created w))"

text \<open>The engine's side of the flush: once a flush submission has been accepted the
  engine is in a draining state (\<open>D\<close>), and in a draining state a receive call never
  answers Starved and leaves the engine draining.\<close>

definition draining_decoder ::
  "('c, 'e, 'l) decoding_lib_scheme \<Rightarrow> (AVPacket option \<Rightarrow> bool) \<Rightarrow> ('e \<Rightarrow> bool) \<Rightarrow> bool" where
  "draining_decoder L flush D \<longleftrightarrow>
     (\<forall>e p s e'. flush p \<and> avcodec_send_packet L e p = (s, e') \<and> 0 \<le> s \<longrightarrow> D e')
   \<and> (\<forall>e fr r f e'. D e \<and> avcodec_receive_frame L e fr = (r, f, e') \<longrightarrow>
         r \<noteq> AVERROR_EAGAIN L \<and> D e')"



text \<open>The same for the encoder. \<open>frame_call\<close> holds of the calls that \<^verbatim>\<open>encode\<close>
  makes for a frame; \<open>packet_received\<close> of a receive call that produced a packet.
  \<open>enc_effect L outfile w r\<close> says what the frame loop has done when it started in
  \<open>w\<close> and ended with outcome \<open>r\<close>: only such calls were added; the output file grew
  by the bytes of one packet per produced receive call, in order; the error stream got
  one line when the process was ended (with status 1) and nothing otherwise.\<close>

fun frame_call :: "call \<Rightarrow> bool" where
  "frame_call (SendFrame (Some fr) s) = True"
| "frame_call (ReceivePacket x) = True"
| "frame_call c = False"

fun packet_received :: "int \<Rightarrow> int \<Rightarrow> call \<Rightarrow> bool" where
  "packet_received eagain eofc (ReceivePacket x) = (0 \<le> x \<and> x \<noteq> eagain \<and> x \<noteq> eofc)"
| "packet_received eagain eofc c = False"

definition enc_effect ::
  "('c, 'e) encoder_lib \<Rightarrow> string \<Rightarrow> 'a process_scheme \<Rightarrow> 'a process_scheme outcome \<Rightarrow> bool" where
  "enc_effect L outfile w r \<longleftrightarrow>
     (\<exists>cs pks. calls (final r) = calls w @ cs \<and> (\<forall>c\<in>set cs. frame_call c)
        \<and> length (filter (packet_received (AVERROR_EAGAIN L) (AVERROR_EOF L)) cs) = length pks
        \<and> (\<forall>old. fs w outfile = Some old \<longrightarrow>
              fs (final r) outfile = Some (old @ concat (map packet_bytes pks))))
   \<and> (case r of
         Returned w' \<Rightarrow> err_stream w' = err_stream w
       | Exited st w' \<Rightarrow> st = 1 \<and> (\<exists>m. err_stream w' = err_stream w @ [m]))"

text \<open>What \<^verbatim>\<open>video_encode.cpp\<close> has written: the output file holds the bytes of the
  packets delivered so far, in the order of delivery, and one packet was delivered per
  receive call of the history that produced a packet.\<close>

definition written_inv :: "('c, 'e) encoder_lib \<Rightarrow> string \<Rightarrow> 'a process_scheme \<Rightarrow> bool" where
  "written_inv L outfile w \<longleftrightarrow>
     fs w outfile = Some (concat (map packet_bytes (delivered w)))
   \<and> length (delivered w)
       = length (filter (packet_received (AVERROR_EAGAIN L) (AVERROR_EOF L)) (calls w))"



text \<open>Reading the history of \<^verbatim>\<open>video_hw_decode.cpp\<close>: the packets submitted to the
  decoder, the packets that \<^verbatim>\<open>av_read_frame\<close> delivered, and the packets released, each
  in the order of the calls.\<close>

fun sent1 :: "call \<Rightarrow> AVPacket list" where
  "sent1 (SendPacket (Some p) s) = [p]"
| "sent1 c = []"

fun read1 :: "call \<Rightarrow> AVPacket list" where
  "read1 (ReadFrame r p) = (if 0 \<le> r then [p] else [])"
| "read1 c = []"

fun unref1 :: "call \<Rightarrow> AVPacket list" where
  "unref1 (Unref p) = [p]"
| "unref1 c = []"

definition submitted :: "call list \<Rightarrow> AVPacket list" where
  "submitted cs = concat (map sent1 cs)"

definition packets_read :: "call list \<Rightarrow> AVPacket list" where
  "packets_read cs = concat (map read1 cs)"

definition released :: "call list \<Rightarrow> AVPacket list" where
  "released cs = concat (map unref1 cs)"

text \<open>The calls that the retrieval loop of \<^verbatim>\<open>decode_write\<close> makes, and the calls that
  reach the decoder.\<close>

fun frame_event :: "call \<Rightarrow> bool" where
  "frame_event (ReceiveFrame x) = True"
| "frame_event (TransferData d s r) = True"
| "frame_event (CopyToBuffer f n) = True"
| "frame_event c = False"

fun engine_call :: "call \<Rightarrow> bool" where
  "engine_call (SendPacket p s) = True"
| "engine_call (ReceiveFrame x) = True"
| "engine_call c = False"

text \<open>A submission that carries no payload: no packet at all, or a packet without a
  buffer and of size 0, which is what \<^verbatim>\<open>main\<close> of \<^verbatim>\<open>video_hw_decode.cpp\<close> submits and
  what the decoder takes for the flush signal.\<close>

fun no_payload :: "AVPacket option \<Rightarrow> bool" where
  "no_payload None = True"
| "no_payload (Some q) = (pkt_data q = None \<and> pkt_size q = 0)"

fun payload_free_sent :: "call \<Rightarrow> bool" where
  "payload_free_sent (SendPacket p s) = no_payload p"
| "payload_free_sent c = False"

text \<open>The demuxer's side: a packet that \<^verbatim>\<open>av_read_frame\<close> delivers carries a payload.\<close>

definition demuxer_payload :: "('c, 'e, 'ic, 'ty, 'dev) hw_lib \<Rightarrow> bool" where
  "demuxer_payload L \<longleftrightarrow>
     (\<forall>ic pk r q ic'. av_read_frame L ic pk = (r, q, ic') \<and> 0 \<le> r \<longrightarrow> \<not> no_payload (Some q))"

text \<open>What a run of the retrieval loop of \<^verbatim>\<open>decode_write\<close> that started in \<open>w\<close> and
  returned \<open>r\<close> in \<open>w'\<close> has done: the packet is untouched; only frame events were added
  to the history; \<open>r\<close> is 0 or negative, and negative only after a diagnostic line. When
  nothing was printed, the receive calls all produced a frame except the last, which
  answered Starved or Exhausted, and Exhausted when the decoder was draining.\<close>

definition retrieval_effect ::
  "('c, 'e, 'ic, 'ty, 'dev) hw_lib \<Rightarrow> (AVPacket option \<Rightarrow> bool) \<Rightarrow> ('e \<Rightarrow> bool)
     \<Rightarrow> ('e, 'ic) hw_state \<Rightarrow> int \<Rightarrow> ('e, 'ic) hw_state \<Rightarrow> bool" where
  "retrieval_effect L fl D w r w' \<longleftrightarrow>
     packet w' = packet w \<and> r \<le> 0
   \<and> (\<exists>cs ms. calls w' = calls w @ cs \<and> err_stream w' = err_stream w @ ms
        \<and> (\<forall>c\<in>set cs. frame_event c)
        \<and> (r < 0 \<longrightarrow> ms \<noteq> [])
        \<and> (ms = [] \<longrightarrow>
             (\<exists>rs x. filter engine_call cs = map ReceiveFrame rs @ [ReceiveFrame x]
                \<and> (\<forall>y\<in>set rs. 0 \<le> y \<and> y \<noteq> AVERROR_EAGAIN L \<and> y \<noteq> AVERROR_EOF L)
                \<and> (x = AVERROR_EAGAIN L \<or> x = AVERROR_EOF L)
                \<and> (draining_decoder L fl D \<and> D (decoder_ctx w) \<longrightarrow> x = AVERROR_EOF L))))"

section \<open>A small library instance\<close>

text \<open>A concrete library on which the programs can be run: a decoder that holds one
  frame back until the next packet or the flush arrives, a parser for packets of three
  bytes, and an encoder that holds one packet back in the same way.\<close>

record toy_engine =
  ready :: nat
  held :: nat
  flushed :: bool
  produced :: int

definition toy_engine0 :: toy_engine where
  "toy_engine0 = \<lparr>ready = 0, held = 0, flushed = False, produced = 0\<rparr>"

definition blank_packet :: AVPacket where
  "blank_packet = \<lparr>pkt_data = None, pkt_size = 0, pkt_pts = 0, stream_index = 0\<rparr>"

definition blank_frame :: AVFrame where
  "blank_frame = \<lparr>format = - 1, width = 0, height = 0, linesize = (\<lambda>_. 0),
     data = (\<lambda>_. []), pts = 0\<rparr>"

definition toy_picture :: "int \<Rightarrow> AVFrame" where
  "toy_picture n = \<lparr>format = 8, width = 2, height = 2, linesize = (\<lambda>_. 4),
     data = (\<lambda>_. [1, 2, 0, 0, 3, 4, 0, 0]), pts = n\<rparr>"

definition toy_send :: "toy_engine \<Rightarrow> AVPacket option \<Rightarrow> int \<times> toy_engine" where
  "toy_send e p =
     (if flushed e then (- 22, e)
      else case p of
        None \<Rightarrow> (0, e\<lparr>ready := ready e + held e, held := 0, flushed := True\<rparr>)
      | Some _ \<Rightarrow> (0, e\<lparr>ready := ready e + held e, held := 1\<rparr>))"

definition toy_receive :: "toy_engine \<Rightarrow> AVFrame \<Rightarrow> int \<times> AVFrame \<times> toy_engine" where
  "toy_receive e fr =
     (if 0 < ready e
      then (0, toy_picture (produced e), e\<lparr>ready := ready e - 1, produced := produced e + 1\<rparr>)
      else if flushed e then (- 541478725, blank_frame, e)
      else (- 11, blank_frame, e))"

definition toy_parse ::
  "byte list \<Rightarrow> toy_engine \<Rightarrow> (nat \<Rightarrow> byte) \<Rightarrow> nat \<Rightarrow> int
     \<Rightarrow> int \<times> (byte list option \<times> int) \<times> byte list \<times> toy_engine" where
  "toy_parse ps e buf off n =
     (let k = min (nat n) (3 - length ps);
          got = ps @ map buf [off..<off + k]
      in if length got = 3 then (int k, (Some got, 3), [], e)
         else (int k, (None, 0), got, e))"

definition toy_decoder :: "(unit, toy_engine, byte list) decoder_lib" where
  "toy_decoder =
     \<lparr>AVERROR_EAGAIN = - 11, AVERROR_EOF = - 541478725, AVERROR_ENOMEM = - 12,
      av_frame_alloc = (\<lambda>_. Some blank_frame),
      av_packet_alloc = (\<lambda>_. Some blank_packet),
      av_malloc = (\<lambda>_ _. True),
      avcodec_alloc_context3 = (\<lambda>_. Some toy_engine0),
      avcodec_open2 = (\<lambda>e _. (0, e)),
      av_packet_unref = (\<lambda>_. blank_packet),
      avcodec_send_packet = toy_send,
      avcodec_receive_frame = toy_receive,
      AV_INPUT_BUFFER_PADDING_SIZE = 64,
      avcodec_find_decoder_by_name = (\<lambda>n. if n = ''toy'' then Some () else None),
      av_parser_init = (\<lambda>_. Some []),
      garbage = (\<lambda>_. 170),
      av_parser_parse2 = toy_parse,
      frame_number = (\<lambda>e. word_of_int (produced e)),
      can_open_w = (\<lambda>_. True)\<rparr>"

definition toy_decode_state :: "(toy_engine, byte list) decode_state" where
  "toy_decode_state =
     \<lparr>fs = Map.empty, err_stream = [], out_stream = [], calls = [], created = [],
      delivered = [], allocs = 0,
      ctx = toy_engine0\<lparr>held := 1\<rparr>, parser = [], frame = blank_frame, pkt = blank_packet,
      infile = \<lparr>content = [], pos = 0, at_eof = False\<rparr>, inbuf = (\<lambda>_. 0)\<rparr>"

definition toy_files :: "string \<Rightarrow> byte list option" where
  "toy_files = [''in'' \<mapsto> [1, 2, 3, 4, 5, 6, 7]]"

definition toy_send_frame :: "toy_engine \<Rightarrow> AVFrame option \<Rightarrow> int \<times> toy_engine" where
  "toy_send_frame e fr =
     (if flushed e then (- 22, e)
      else case fr of
        None \<Rightarrow> (0, e\<lparr>ready := ready e + held e, held := 0, flushed := True\<rparr>)
      | Some _ \<Rightarrow> (0, e\<lparr>ready := ready e + held e, held := 1\<rparr>))"

definition toy_receive_packet :: "toy_engine \<Rightarrow> AVPacket \<Rightarrow> int \<times> AVPacket \<times> toy_engine" where
  "toy_receive_packet e p =
     (if 0 < ready e
      then (0, \<lparr>pkt_data = Some [of_int (produced e), 7], pkt_size = 2,
                 pkt_pts = produced e, stream_index = 0\<rparr>,
            e\<lparr>ready := ready e - 1, produced := produced e + 1\<rparr>)
      else if flushed e then (- 541478725, blank_packet, e)
      else (- 11, blank_packet, e))"

definition toy_encoder :: "(unit, toy_engine) encoder_lib" where
  "toy_encoder =
     \<lparr>AVERROR_EAGAIN = - 11, AVERROR_EOF = - 541478725, AVERROR_ENOMEM = - 12,
      av_frame_alloc = (\<lambda>_. Some blank_frame),
      av_packet_alloc = (\<lambda>_. Some blank_packet),
      av_malloc = (\<lambda>_ _. True),
      avcodec_alloc_context3 = (\<lambda>_. Some toy_engine0),
      avcodec_open2 = (\<lambda>e _. (0, e)),
      av_packet_unref = (\<lambda>_. blank_packet),
      AV_PIX_FMT_YUV420P = 0,
      avcodec_find_encoder_by_name = (\<lambda>n. if n = ''toy'' then Some () else None),
      set_params = (\<lambda>_ e. e),
      ctx_width = (\<lambda>_. 352),
      ctx_height = (\<lambda>_. 288),
      ctx_pix_fmt = (\<lambda>_. 0),
      is_h264 = (\<lambda>_. False),
      set_preset_slow = (\<lambda>e. e),
      av_err2str = (\<lambda>_. ''error''),
      can_create = (\<lambda>_. True),
      av_frame_get_buffer = (\<lambda>fr. (0, fr)),
      avcodec_send_frame = toy_send_frame,
      avcodec_receive_packet = toy_receive_packet\<rparr>"

definition toy_encode_state :: "toy_engine encode_state" where
  "toy_encode_state =
     \<lparr>fs = [''out.bin'' \<mapsto> []], err_stream = [], out_stream = [], calls = [],
      created = [''out.bin''], delivered = [], allocs = 0,
      enc_ctx = toy_engine0\<lparr>held := 1\<rparr>, enc_frame = blank_frame, enc_pkt = blank_packet\<rparr>"

text \<open>For the hardware decoder: a container that is the list of the stream indices of
  its packets, of which stream 1 is the video stream; a decoder whose frames alternate between the hardware
  format 44 and the host format 8; single-plane pictures of one byte per pixel.\<close>

definition toy_hw_receive :: "toy_engine \<Rightarrow> AVFrame \<Rightarrow> int \<times> AVFrame \<times> toy_engine" where
  "toy_hw_receive e fr =
     (if 0 < ready e
      then (0, (toy_picture (produced e))\<lparr>format := (if even (produced e) then 44 else 8)\<rparr>,
            e\<lparr>ready := ready e - 1, produced := produced e + 1\<rparr>)
      else if flushed e then (- 541478725, blank_frame, e)
      else (- 11, blank_frame, e))"

definition toy_hw_send :: "toy_engine \<Rightarrow> AVPacket option \<Rightarrow> int \<times> toy_engine" where
  "toy_hw_send e p =
     (if flushed e then (- 22, e)
      else case p of
        None \<Rightarrow> (0, e\<lparr>ready := ready e + held e, held := 0, flushed := True\<rparr>)
      | Some q \<Rightarrow>
          (if pkt_data q = None \<and> pkt_size q = 0
           then (0, e\<lparr>ready := ready e + held e, held := 0, flushed := True\<rparr>)
           else (0, e\<lparr>ready := ready e + held e, held := 1\<rparr>)))"

definition toy_geometry :: "int \<Rightarrow> int \<Rightarrow> int \<Rightarrow> (nat \<times> nat) list" where
  "toy_geometry fmt w h = [(nat w, nat h)]"

definition toy_stream_packet :: "int \<Rightarrow> AVPacket" where
  "toy_stream_packet i = \<lparr>pkt_data = Some [9], pkt_size = 1, pkt_pts = 0, stream_index = i\<rparr>"

definition toy_hw :: "(unit, toy_engine, int list, unit, unit) hw_lib" where
  "toy_hw =
     \<lparr>AVERROR_EAGAIN = - 11, AVERROR_EOF = - 541478725, AVERROR_ENOMEM = - 12,
      av_frame_alloc = (\<lambda>_. Some blank_frame),
      av_packet_alloc = (\<lambda>_. Some blank_packet),
      av_malloc = (\<lambda>_ _. True),
      avcodec_alloc_context3 = (\<lambda>_. Some toy_engine0),
      avcodec_open2 = (\<lambda>e _. (0, e)),
      av_packet_unref = (\<lambda>_. blank_packet),
      avcodec_send_packet = toy_hw_send,
      avcodec_receive_frame = toy_hw_receive,
      AV_CODEC_HW_CONFIG_METHOD_HW_DEVICE_CTX = 1,
      av_hwdevice_find_type_by_name = (\<lambda>n. if n = ''toy'' then Some () else None),
      av_hwdevice_iterate_types = (\<lambda>t. case t of None \<Rightarrow> Some () | Some _ \<Rightarrow> None),
      av_hwdevice_get_type_name = (\<lambda>_. ''toy''),
      avformat_open_input =
        (\<lambda>n. if n = ''in.mkv''
             then Some [0, 1, 0, 1]
             else None),
      avformat_find_stream_info = (\<lambda>ic. (0, ic)),
      av_find_best_stream = (\<lambda>ic. (1, ())),
      avcodec_get_hw_config =
        (\<lambda>c i. if i = 0 then Some \<lparr>methods = 2, device_type = (), cfg_pix_fmt = 0\<rparr>
               else if i = 1 then Some \<lparr>methods = 1, device_type = (), cfg_pix_fmt = 44\<rparr>
               else None),
      codec_name = (\<lambda>_. ''toy''),
      avcodec_parameters_to_context = (\<lambda>e ic i. (0, e)),
      av_hwdevice_ctx_create = (\<lambda>_. (0, ())),
      set_hw_device_ctx = (\<lambda>_ e. e),
      garbage_packet = \<lparr>pkt_data = Some [], pkt_size = 77, pkt_pts = 5, stream_index = 3\<rparr>,
      av_read_frame = (\<lambda>ic pk. case ic of [] \<Rightarrow> (- 541478725, blank_packet, [])
                                 | i # is \<Rightarrow> (0, toy_stream_packet i, is)),
      av_hwframe_transfer_data = (\<lambda>dst src. (0, src\<lparr>format := 8\<rparr>)),
      av_image_get_buffer_size = (\<lambda>fmt w h align. int (packed_size (toy_geometry fmt w h))),
      av_image_copy_to_buffer =
        (\<lambda>n planes strides fmt w h align.
           (n, packed_image (toy_geometry fmt w h) planes strides))\<rparr>"

text \<open>The same library with a decoder whose receive call always fails.\<close>

definition toy_hw_failing :: "(unit, toy_engine, int list, unit, unit) hw_lib" where
  "toy_hw_failing = toy_hw\<lparr>avcodec_receive_frame := (\<lambda>e fr. (- 5, fr, e))\<rparr>"

definition toy_hw_state :: "(toy_engine, int list) hw_state" where
  "toy_hw_state =
     \<lparr>fs = [''out.raw'' \<mapsto> []], err_stream = [], out_stream = [], calls = [],
      created = [''out.raw''], delivered = [], allocs = 0,
      decoder_ctx = toy_engine0\<lparr>ready := 2\<rparr>, input_ctx = [], packet = blank_packet,
      hw_pix_fmt = 44, output_file = ''out.raw''\<rparr>"

section \<open>Properties of the pumps\<close>

lemma calls_eprint [simp]: "calls (eprint s w) = calls w"
  and calls_oprint [simp]: "calls (oprint s w) = calls w"
  and calls_fwrite [simp]: "calls (fwrite bs n w) = calls w"
  and calls_fopen_w [simp]: "calls (fopen_w n w) = calls w"
  and calls_pgm_save [simp]: "calls (pgm_written b wr x y n w) = calls w"
  and calls_record_call [simp]: "calls (record_call k w) = calls w @ [k]"
  by (simp_all add: eprint_def oprint_def fwrite_def fopen_w_def pgm_written_def record_call_def)

lemma err_eprint [simp]: "err_stream (eprint s w) = err_stream w @ [s]"
  and err_oprint [simp]: "err_stream (oprint s w) = err_stream w"
  and err_fwrite [simp]: "err_stream (fwrite bs n w) = err_stream w"
  and err_fopen_w [simp]: "err_stream (fopen_w n w) = err_stream w"
  and err_pgm_save [simp]: "err_stream (pgm_written b wr x y n w) = err_stream w"
  and err_record_call [simp]: "err_stream (record_call k w) = err_stream w"
  by (simp_all add: eprint_def oprint_def fwrite_def fopen_w_def pgm_written_def record_call_def)

lemma drained_stop:
  "x = eagain \<or> x = eofc \<Longrightarrow> calls w' = cs0 @ [rcv x] \<Longrightarrow> err_stream w' = es0
     \<Longrightarrow> drained eagain eofc rcv msg cs0 es0 (Returned w')"
  unfolding drained_def by (intro exI[of _ "[]"] exI[of _ x]) simp

lemma drained_fatal:
  "x < 0 \<Longrightarrow> x \<noteq> eagain \<Longrightarrow> x \<noteq> eofc \<Longrightarrow> calls w' = cs0 @ [rcv x]
     \<Longrightarrow> err_stream w' = es0 @ [msg]
     \<Longrightarrow> drained eagain eofc rcv msg cs0 es0 (Exited 1 w')"
  unfolding drained_def by (intro exI[of _ "[]"] exI[of _ x]) simp

lemma drained_step:
  assumes "drained eagain eofc rcv msg (cs0 @ [rcv y]) es0 r"
    and "y \<noteq> eagain" "y \<noteq> eofc" "0 \<le> y"
  shows "drained eagain eofc rcv msg cs0 es0 r"
proof -
  from assms(1) obtain rs x where
    h: "calls (final r) = (cs0 @ [rcv y]) @ map rcv rs @ [rcv x]"
       "\<forall>z\<in>set rs. 0 \<le> z \<and> z \<noteq> eagain \<and> z \<noteq> eofc"
       "case r of
              Returned w' \<Rightarrow> (x = eagain \<or> x = eofc) \<and> err_stream w' = es0
            | Exited st w' \<Rightarrow> st = 1 \<and> x < 0 \<and> x \<noteq> eagain \<and> x \<noteq> eofc
                 \<and> err_stream w' = es0 @ [msg]"
    unfolding drained_def by blast
  show ?thesis
    unfolding drained_def
    using h assms(2-) by (intro exI[of _ "y # rs"] exI[of _ x]) simp
qed

lemma decode_loop_drained:
  assumes "decode_loop L fn ret w = Some r"
  shows "0 \<le> ret \<longrightarrow>
     drained (AVERROR_EAGAIN L) (AVERROR_EOF L) ReceiveFrame ''Error during decoding''
       (calls w) (err_stream w) r"
proof (rule decode_loop.raw_induct
    [where P = "\<lambda>L fn ret w r. 0 \<le> ret \<longrightarrow>
       drained (AVERROR_EAGAIN L) (AVERROR_EOF L) ReceiveFrame ''Error during decoding''
         (calls w) (err_stream w) r", OF _ assms], goal_cases)
  case (1 loop L fn ret w r)
  show ?case
  proof
    assume nn: "0 \<le> ret"
    obtain ret' fr e where rc: "avcodec_receive_frame L (ctx w) (frame w) = (ret', fr, e)"
      by (cases "avcodec_receive_frame L (ctx w) (frame w)") auto
    let ?w1 = "record_call (ReceiveFrame ret') (w\<lparr>ctx := e, frame := fr\<rparr>)"
    consider (stop) "ret' = AVERROR_EAGAIN L \<or> ret' = AVERROR_EOF L"
      | (fatal) "ret' \<noteq> AVERROR_EAGAIN L" "ret' \<noteq> AVERROR_EOF L" "ret' < 0"
      | (produced) "ret' \<noteq> AVERROR_EAGAIN L" "ret' \<noteq> AVERROR_EOF L" "0 \<le> ret'"
      by linarith
    then show "drained (AVERROR_EAGAIN L) (AVERROR_EOF L) ReceiveFrame
                 ''Error during decoding'' (calls w) (err_stream w) r"
    proof cases
      case stop
      with 1(2) rc nn have "r = Returned ?w1"
        by (auto simp: Let_def)
      with stop show ?thesis
        by (simp add: drained_stop)
    next
      case fatal
      with 1(2) rc nn have "r = Exited 1 (eprint ''Error during decoding'' ?w1)"
        by (simp add: Let_def)
      with fatal show ?thesis
        by (simp add: drained_fatal)
    next
      case produced
      let ?w2 = "oprint (''saving frame '' @ show_int_w 3 (sint (frame_number L (ctx ?w1)))) ?w1"
      let ?w3 = "pgm_written (data (frame ?w2) 0) (linesize (frame ?w2) 0)
                     (width (frame ?w2)) (height (frame ?w2))
                     (snprintf 1024 (fn @ ''-'' @ show_int (sint (frame_number L (ctx ?w2))))) ?w2"
      from 1(2) rc nn produced have "loop L fn ret' ?w3 = Some r"
        by (simp add: Let_def pgm_save_def split: if_splits)
      from 1(1)[OF this] produced
      have "drained (AVERROR_EAGAIN L) (AVERROR_EOF L) ReceiveFrame
              ''Error during decoding'' (calls w @ [ReceiveFrame ret']) (err_stream w) r"
        by simp
      then show ?thesis
        using produced by (rule drained_step)
    qed
  qed
qed

lemma encode_loop_drained:
  assumes "encode_loop L out ret w = Some r"
  shows "0 \<le> ret \<longrightarrow>
     drained (AVERROR_EAGAIN L) (AVERROR_EOF L) ReceivePacket ''Error during encoding''
       (calls w) (err_stream w) r"
proof (rule encode_loop.raw_induct
    [where P = "\<lambda>L out ret w r. 0 \<le> ret \<longrightarrow>
       drained (AVERROR_EAGAIN L) (AVERROR_EOF L) ReceivePacket ''Error during encoding''
         (calls w) (err_stream w) r", OF _ assms], goal_cases)
  case (1 loop L out ret w r)
  show ?case
  proof
    assume nn: "0 \<le> ret"
    obtain ret' p e where rc: "avcodec_receive_packet L (enc_ctx w) (enc_pkt w) = (ret', p, e)"
      by (cases "avcodec_receive_packet L (enc_ctx w) (enc_pkt w)") auto
    let ?w1 = "record_call (ReceivePacket ret') (w\<lparr>enc_ctx := e, enc_pkt := p\<rparr>)"
    consider (stop) "ret' = AVERROR_EAGAIN L \<or> ret' = AVERROR_EOF L"
      | (fatal) "ret' \<noteq> AVERROR_EAGAIN L" "ret' \<noteq> AVERROR_EOF L" "ret' < 0"
      | (produced) "ret' \<noteq> AVERROR_EAGAIN L" "ret' \<noteq> AVERROR_EOF L" "0 \<le> ret'"
      by linarith
    then show "drained (AVERROR_EAGAIN L) (AVERROR_EOF L) ReceivePacket
                 ''Error during encoding'' (calls w) (err_stream w) r"
    proof cases
      case stop
      with 1(2) rc nn have "r = Returned ?w1"
        by (auto simp: Let_def)
      with stop show ?thesis
        by (simp add: drained_stop)
    next
      case fatal
      with 1(2) rc nn have "r = Exited 1 (eprint ''Error during encoding'' ?w1)"
        by (simp add: Let_def)
      with fatal show ?thesis
        by (simp add: drained_fatal)
    next
      case produced
      let ?w2 = "oprint (''Write packet '' @ show_int (pkt_pts (enc_pkt ?w1)) @ '' (size=''
                                @ show_int_w 5 (pkt_size (enc_pkt ?w1)) @ '')'')
                   (?w1\<lparr>delivered := delivered ?w1 @ [p]\<rparr>)"
      let ?w3 = "fwrite (packet_bytes (enc_pkt ?w2)) out ?w2"
      from 1(2) rc nn produced
      have "loop L out ret' (?w3\<lparr>enc_pkt := av_packet_unref L (enc_pkt ?w3)\<rparr>) = Some r"
        by (simp add: Let_def)
      from 1(1)[OF this] produced
      have "drained (AVERROR_EAGAIN L) (AVERROR_EOF L) ReceivePacket
              ''Error during encoding'' (calls w @ [ReceivePacket ret']) (err_stream w) r"
        by simp
      then show ?thesis
        using produced by (rule drained_step)
    qed
  qed
qed

lemma decode_verdict:
  assumes "decode L p fn w = Some r"
  shows "(\<exists>s w'. s < 0 \<and> r = Exited 1 w' \<and> calls w' = calls w @ [SendPacket p s]
            \<and> err_stream w' = err_stream w @ [''Error sending a packet for decoding''])
       \<or> (\<exists>s. 0 \<le> s \<and> drained (AVERROR_EAGAIN L) (AVERROR_EOF L) ReceiveFrame
                ''Error during decoding'' (calls w @ [SendPacket p s]) (err_stream w) r)"
proof -
  obtain s e where sd: "avcodec_send_packet L (ctx w) p = (s, e)"
    by (cases "avcodec_send_packet L (ctx w) p") auto
  show ?thesis
  proof (cases "s < 0")
    case True
    with assms sd show ?thesis
      by (auto simp: decode_def Let_def)
  next
    case False
    with assms sd
    have "decode_loop L fn s (record_call (SendPacket p s) (w\<lparr>ctx := e\<rparr>)) = Some r"
      by (simp add: decode_def Let_def)
    from decode_loop_drained[OF this] False show ?thesis
      by auto
  qed
qed

lemma encode_verdict:
  assumes "encode L fr out w = Some r"
  shows "(\<exists>s w'. s < 0 \<and> r = Exited 1 w' \<and> calls w' = calls w @ [SendFrame fr s]
            \<and> err_stream w' = err_stream w @ [''Error sending a frame for encoding''])
       \<or> (\<exists>s. 0 \<le> s \<and> drained (AVERROR_EAGAIN L) (AVERROR_EOF L) ReceivePacket
                ''Error during encoding'' (calls w @ [SendFrame fr s]) (err_stream w) r)"
proof -
  let ?w0 = "case fr of None \<Rightarrow> w | Some f \<Rightarrow> oprint (''Send frame '' @ show_int (pts f)) w"
  have w0: "calls ?w0 = calls w" "err_stream ?w0 = err_stream w"
    by (simp_all split: option.splits)
  obtain s e where sd: "avcodec_send_frame L (enc_ctx ?w0) fr = (s, e)"
    by (cases "avcodec_send_frame L (enc_ctx ?w0) fr") auto
  show ?thesis
  proof (cases "s < 0")
    case True
    with assms sd w0 show ?thesis
      by (auto simp: encode_def Let_def)
  next
    case False
    with assms sd
    have "encode_loop L out s (record_call (SendFrame fr s) (?w0\<lparr>enc_ctx := e\<rparr>)) = Some r"
      by (simp add: encode_def Let_def)
    from encode_loop_drained[OF this] False w0 show ?thesis
      by auto
  qed
qed

lemmas toy_defs = toy_decoder_def toy_decode_state_def toy_send_def toy_receive_def
  toy_engine0_def toy_encoder_def toy_encode_state_def toy_send_frame_def toy_receive_packet_def
  toy_picture_def blank_packet_def blank_frame_def toy_hw_def toy_hw_state_def
  toy_hw_receive_def toy_hw_send_def toy_stream_packet_def toy_hw_failing_def

lemmas io_defs = eprint_def oprint_def fwrite_def fopen_w_def pgm_save_def pgm_written_def
  rows_in_plane_def record_call_def
  snprintf_def packet_bytes_def Let_def upt_conv_Cons

section \<open>The cursor over the input of video_decode.cpp\<close>

lemma size_t_of_nat: "n \<le> 4096 \<Longrightarrow> unat (of_nat n :: size_t) = n"
  by (simp add: unat_of_nat)

lemma sint_word_of_nat_small:
  assumes "k \<le> 4096" shows "sint (word_of_nat k :: 32 word) = int k"
proof -
  have "sint (word_of_int (int k) :: 32 word) = signed_take_bit (LENGTH(32) - 1) (int k)"
    by (rule sint_sbintrunc')
  also have "\<dots> = int k"
    using assms by (simp add: signed_take_bit_int_eq_self)
  finally show ?thesis
    by (simp only: of_int_of_nat_eq)
qed

lemma size_t_to_int_small: "unat (ds :: size_t) \<le> 4096 \<Longrightarrow> size_t_to_int ds = int (unat ds)"
  unfolding size_t_to_int_def using sint_word_of_nat_small[of "unat ds"] by simp

lemma size_t_pos: "(0 < (ds :: size_t)) = (0 < unat ds)"
  by (simp add: word_greater_zero_iff unat_gt_0)

lemma size_t_sub:
  "0 \<le> r \<Longrightarrow> r \<le> int (unat (ds :: size_t)) \<Longrightarrow> unat (ds - word_of_int r) = unat ds - nat r"
  by (metis le_unat_uoi nat_0_le nat_le_iff of_int_of_nat_eq unat_sub word_le_nat_alt)

lemma walk_snoc: "walk b (cs @ [c]) = Option.bind (walk b cs) (\<lambda>rest. feed rest c)"
  by (simp add: walk_def)

lemma feed_nonparse: "\<not> is_parse c \<Longrightarrow> feed rest c = Some rest"
  by (cases c) simp_all

lemma fold_nonparse:
  "\<forall>c\<in>set ds. \<not> is_parse c \<Longrightarrow>
     fold (\<lambda>c acc. Option.bind acc (\<lambda>rest. feed rest c)) ds acc = acc"
  by (induction ds arbitrary: acc) (simp_all add: feed_nonparse)

lemma walk_nonparse: "\<forall>c\<in>set ds. \<not> is_parse c \<Longrightarrow> walk b (cs @ ds) = walk b cs"
  by (simp add: walk_def fold_nonparse)

lemma pad_ok_nonparse: "\<not> is_parse c \<Longrightarrow> pad_ok padding c"
  by (cases c) simp_all

lemma decode_loop_keeps:
  assumes "decode_loop L fn ret w = Some r"
  shows "infile (final r) = infile w \<and> inbuf (final r) = inbuf w"
proof (rule decode_loop.raw_induct
    [where P = "\<lambda>L fn ret w r. infile (final r) = infile w \<and> inbuf (final r) = inbuf w",
     OF _ assms], goal_cases)
  case (1 loop L fn ret w r)
  obtain ret' fr e where rc: "avcodec_receive_frame L (ctx w) (frame w) = (ret', fr, e)"
    by (cases "avcodec_receive_frame L (ctx w) (frame w)") auto
  show ?case
  proof (cases "0 \<le> ret \<and> ret' \<noteq> AVERROR_EAGAIN L \<and> ret' \<noteq> AVERROR_EOF L \<and> 0 \<le> ret'")
    case True
    let ?w1 = "record_call (ReceiveFrame ret') (w\<lparr>ctx := e, frame := fr\<rparr>)"
    let ?w2 = "oprint (''saving frame '' @ show_int_w 3 (sint (frame_number L (ctx ?w1)))) ?w1"
    let ?w3 = "pgm_written (data (frame ?w2) 0) (linesize (frame ?w2) 0)
                     (width (frame ?w2)) (height (frame ?w2))
                     (snprintf 1024 (fn @ ''-'' @ show_int (sint (frame_number L (ctx ?w2))))) ?w2"
    from 1(2) rc True have "loop L fn ret' ?w3 = Some r"
      by (simp add: Let_def pgm_save_def split: if_splits)
    from 1(1)[OF this] show ?thesis
      by (simp add: io_defs)
  next
    case False
    with 1(2) rc show ?thesis
      by (auto simp: io_defs split: if_splits)
  qed
qed

lemma decode_keeps:
  assumes "decode L p fn w = Some r"
  shows "infile (final r) = infile w \<and> inbuf (final r) = inbuf w"
proof -
  obtain s e where sd: "avcodec_send_packet L (ctx w) p = (s, e)"
    by (cases "avcodec_send_packet L (ctx w) p") auto
  show ?thesis
  proof (cases "s < 0")
    case True
    with assms sd show ?thesis
      by (auto simp: decode_def io_defs)
  next
    case False
    with assms sd
    have "decode_loop L fn s (record_call (SendPacket p s) (w\<lparr>ctx := e\<rparr>)) = Some r"
      by (simp add: decode_def Let_def)
    from decode_loop_keeps[OF this] show ?thesis
      by (simp add: io_defs)
  qed
qed

lemma decode_calls:
  assumes "decode L p fn w = Some r"
  shows "\<exists>ds. calls (final r) = calls w @ ds \<and> (\<forall>c\<in>set ds. \<not> is_parse c)"
proof -
  from decode_verdict[OF assms] show ?thesis
  proof
    assume "\<exists>s w'. s < 0 \<and> r = Exited 1 w' \<and> calls w' = calls w @ [SendPacket p s]
            \<and> err_stream w' = err_stream w @ [''Error sending a packet for decoding'']"
    then show ?thesis by auto
  next
    assume "\<exists>s. 0 \<le> s \<and> drained (AVERROR_EAGAIN L) (AVERROR_EOF L) ReceiveFrame
                ''Error during decoding'' (calls w @ [SendPacket p s]) (err_stream w) r"
    then obtain s rs x where
      "calls (final r) = (calls w @ [SendPacket p s]) @ map ReceiveFrame rs @ [ReceiveFrame x]"
      unfolding drained_def by blast
    then have "calls (final r) = calls w @ (SendPacket p s # map ReceiveFrame rs @ [ReceiveFrame x])"
      by simp
    moreover have "\<forall>c\<in>set (SendPacket p s # map ReceiveFrame rs @ [ReceiveFrame x]). \<not> is_parse c"
      by auto
    ultimately show ?thesis by blast
  qed
qed

lemma chunk_inv_decode:
  assumes "decode L p fn w = Some r" "chunk_inv padding d k w"
  shows "chunk_inv padding d k (final r)"
proof -
  from decode_calls[OF assms(1)] obtain ds where
    ds: "calls (final r) = calls w @ ds" "\<forall>c\<in>set ds. \<not> is_parse c"
    by blast
  from decode_keeps[OF assms(1)] have k: "infile (final r) = infile w" "inbuf (final r) = inbuf w"
    by simp_all
  from assms(2) show ?thesis
    unfolding chunk_inv_def k ds(1)
    using ds(2) by (auto simp: walk_nonparse pad_ok_nonparse)
qed

lemma window_eq:
  assumes "k \<le> p" "p \<le> length xs" "\<forall>i<k. buf (d + i) = xs ! (p - k + i)"
  shows "map buf [d..<d + k] = take k (drop (p - k) xs)"
proof (rule nth_equalityI)
  show "length (map buf [d..<d + k]) = length (take k (drop (p - k) xs))"
    using assms(1,2) by simp
next
  fix i assume "i < length (map buf [d..<d + k])"
  then have i: "i < k" by simp
  with assms show "map buf [d..<d + k] ! i = take k (drop (p - k) xs) ! i"
    by simp
qed

lemma chunk_inv_parse:
  assumes inv: "chunk_inv padding d k w" and k: "0 < k" and r: "r \<le> int k"
  shows "trace_ok padding (content (infile w))
           (calls (record_call (Parse (inbuf w) d (int k) r) (w\<lparr>parser := ps, ctx := e, pkt := pk\<rparr>)))"
    and "0 \<le> r \<Longrightarrow> chunk_inv padding (d + nat r) (k - nat r)
           (record_call (Parse (inbuf w) d (int k) r) (w\<lparr>parser := ps, ctx := e, pkt := pk\<rparr>))"
proof -
  let ?f = "infile w"
  let ?c = "Parse (inbuf w) d (int k) r"
  from inv have b: "k \<le> pos ?f" "pos ?f \<le> length (content ?f)" "d + k \<le> INBUF_SIZE"
    and buf: "\<forall>i<k. inbuf w (d + i) = content ?f ! (pos ?f - k + i)"
    and pad: "\<forall>i\<in>{INBUF_SIZE..<INBUF_SIZE + padding}. inbuf w i = 0"
    and wk: "walk (content ?f) (calls w) = Some (drop (pos ?f - k) (content ?f))"
    and ok: "\<forall>c\<in>set (calls w). pad_ok padding c"
    and eof: "at_eof ?f \<longrightarrow> pos ?f = length (content ?f)"
    unfolding chunk_inv_def by auto
  have win: "map (inbuf w) [d..<d + k] = take k (drop (pos ?f - k) (content ?f))"
    using b(1,2) buf by (rule window_eq)
  have fd: "feed (drop (pos ?f - k) (content ?f)) ?c
              = Some (drop (nat r) (drop (pos ?f - k) (content ?f)))"
    using k r win by simp
  have wk': "walk (content ?f) (calls w @ [?c])
              = Some (drop (nat r) (drop (pos ?f - k) (content ?f)))"
    by (simp add: walk_snoc wk fd del: feed.simps)
  have pk: "pad_ok padding ?c"
    using pad k b(3) by simp
  show "trace_ok padding (content (infile w))
           (calls (record_call ?c (w\<lparr>parser := ps, ctx := e, pkt := pk\<rparr>)))"
    unfolding trace_ok_def using wk' pk ok by (simp add: record_call_def)
  assume r0: "0 \<le> r"
  then have nr: "nat r \<le> k" using r by simp
  have "nat r + (pos ?f - k) = pos ?f - (k - nat r)"
    using nr b(1) by arith
  then have dd: "drop (nat r) (drop (pos ?f - k) (content ?f)) = drop (pos ?f - (k - nat r)) (content ?f)"
    by (simp only: drop_drop)
  have buf': "\<forall>i<k - nat r. inbuf w (d + nat r + i) = content ?f ! (pos ?f - (k - nat r) + i)"
  proof (intro allI impI)
    fix i assume "i < k - nat r"
    then have "nat r + i < k" by simp
    with buf have "inbuf w (d + (nat r + i)) = content ?f ! (pos ?f - k + (nat r + i))"
      by blast
    moreover have "pos ?f - k + (nat r + i) = pos ?f - (k - nat r) + i"
      using nr b(1) by simp
    ultimately show "inbuf w (d + nat r + i) = content ?f ! (pos ?f - (k - nat r) + i)"
      by (simp add: add.assoc)
  qed
  show "chunk_inv padding (d + nat r) (k - nat r)
           (record_call ?c (w\<lparr>parser := ps, ctx := e, pkt := pk\<rparr>))"
    unfolding chunk_inv_def
    using b nr buf' pad wk' dd pk ok eof by (simp add: record_call_def)
qed

lemma chunk_inv_zero: "chunk_inv padding d 0 w \<Longrightarrow> chunk_inv padding 0 0 w"
  unfolding chunk_inv_def by simp

lemma chunk_inv_trace_ok:
  "chunk_inv padding d k w \<Longrightarrow> trace_ok padding (content (infile w)) (calls w)"
  unfolding chunk_inv_def trace_ok_def by simp

lemma parse_loop_inv:
  assumes "parse_loop L out d ds w = Some r"
  shows "parser_bounded L \<longrightarrow> chunk_inv padding d (unat ds) w \<longrightarrow>
     content (infile (final r)) = content (infile w) \<and>
     (case r of Returned w' \<Rightarrow> chunk_inv padding 0 0 w'
              | Exited st w' \<Rightarrow> trace_ok padding (content (infile w)) (calls w'))"
proof (rule parse_loop.raw_induct
    [where P = "\<lambda>L out d ds w r. parser_bounded L \<longrightarrow> chunk_inv padding d (unat ds) w \<longrightarrow>
       content (infile (final r)) = content (infile w) \<and>
       (case r of Returned w' \<Rightarrow> chunk_inv padding 0 0 w'
                | Exited st w' \<Rightarrow> trace_ok padding (content (infile w)) (calls w'))",
     OF _ assms], goal_cases)
  case (1 loop L out d ds w r)
  show ?case
  proof (intro impI)
    assume pb: "parser_bounded L" and inv0: "chunk_inv padding d (unat ds) w"
    define k where "k = unat ds"
    from inv0 have inv: "chunk_inv padding d k w" by (simp add: k_def)
    let ?goal = "content (infile (final r)) = content (infile w) \<and>
       (case r of Returned w' \<Rightarrow> chunk_inv padding 0 0 w'
                | Exited st w' \<Rightarrow> trace_ok padding (content (infile w)) (calls w'))"
    show ?goal
    proof (cases "0 < ds")
      case False
      then have "k = 0" by (simp add: size_t_pos k_def)
      moreover from False 1(2) have "r = Returned w" by simp
      ultimately show ?thesis using inv by (simp add: chunk_inv_zero)
    next
      case True
      then have k0: "0 < k" by (simp add: size_t_pos k_def)
      from inv have "d + k \<le> INBUF_SIZE" unfolding chunk_inv_def by simp
      then have "unat ds \<le> 4096" by (simp add: INBUF_SIZE_def k_def)
      then have n: "size_t_to_int ds = int k" unfolding k_def by (rule size_t_to_int_small)
      obtain ret pd psz ps e where
        pr: "av_parser_parse2 L (parser w) (ctx w) (inbuf w) d (int k) = (ret, (pd, psz), ps, e)"
        by (cases "av_parser_parse2 L (parser w) (ctx w) (inbuf w) d (int k)") auto
      from pb have "0 < int k \<longrightarrow>
          fst (av_parser_parse2 L (parser w) (ctx w) (inbuf w) d (int k)) \<le> int k"
        unfolding parser_bounded_def by blast
      with k0 pr have rk: "ret \<le> int k" by simp
      let ?w1 = "record_call (Parse (inbuf w) d (int k) ret)
                   (w\<lparr>parser := ps, ctx := e, pkt := (pkt w)\<lparr>pkt_data := pd, pkt_size := psz\<rparr>\<rparr>)"
      have c1: "infile ?w1 = infile w" by (simp add: record_call_def)
      note step = chunk_inv_parse[OF inv k0 rk,
          where ps = ps and e = e and pk = "(pkt w)\<lparr>pkt_data := pd, pkt_size := psz\<rparr>"]
      show ?thesis
      proof (cases "ret < 0")
        case True
        with 1(2) \<open>0 < ds\<close> pr n have "r = Exited 1 (eprint ''Error while parsing'' ?w1)"
          by (simp add: Let_def)
        with step(1) show ?thesis
          by (simp add: eprint_def record_call_def)
      next
        case False
        then have r0: "0 \<le> ret" by simp
        have k': "unat (ds - word_of_int ret) = k - nat ret"
          unfolding k_def using r0 rk[unfolded k_def] by (rule size_t_sub)
        from step(2)[OF r0] have inv1: "chunk_inv padding (d + nat ret) (unat (ds - word_of_int ret)) ?w1"
          by (simp add: k')
        show ?thesis
        proof (cases "psz = 0")
          case True
          with 1(2) \<open>0 < ds\<close> pr n False
          have "loop L out (d + nat ret) (ds - word_of_int ret) ?w1 = Some r"
            by (simp add: Let_def record_call_def)
          from 1(1)[OF this] pb inv1 show ?thesis
            by (cases r) (simp_all add: c1)
        next
          case nz: False
          have pk1: "pkt ?w1 = (pkt w)\<lparr>pkt_data := pd, pkt_size := psz\<rparr>"
            by (simp add: record_call_def)
          show ?thesis
          proof (cases "decode L (Some (pkt ?w1)) out ?w1")
            case None
            with 1(2) \<open>0 < ds\<close> pr n False nz show ?thesis
              by (simp add: Let_def record_call_def)
          next
            case (Some q)
            note inv2 = chunk_inv_decode[OF Some inv1]
            from decode_keeps[OF Some] c1 have c2: "infile (final q) = infile w"
              by simp
            show ?thesis
            proof (cases q)
              case (Exited st w2)
              with 1(2) \<open>0 < ds\<close> pr n False nz Some have "r = Exited st w2"
                by (simp add: Let_def record_call_def)
              with inv2 c2 Exited show ?thesis
                using chunk_inv_trace_ok[of padding _ _ w2] by auto
            next
              case (Returned w2)
              with 1(2) \<open>0 < ds\<close> pr n False nz Some
              have "loop L out (d + nat ret) (ds - word_of_int ret) w2 = Some r"
                by (simp add: Let_def record_call_def)
              from 1(1)[OF this] pb inv2 c2 Returned show ?thesis
                by (cases r) simp_all
            qed
          qed
        qed
      qed
    qed
  qed
qed

lemma chunk_inv_fread:
  assumes inv: "chunk_inv padding 0 0 w"
    and rd: "fread INBUF_SIZE (infile w) = (got, f')"
  shows "chunk_inv padding 0 (length got) (w\<lparr>infile := f', inbuf := store got (inbuf w)\<rparr>)"
    and "length got \<le> INBUF_SIZE"
    and "content f' = content (infile w)"
    and "got = [] \<Longrightarrow> pos f' = length (content f')"
proof -
  let ?f = "infile w"
  from rd have got: "got = take INBUF_SIZE (drop (pos ?f) (content ?f))"
    and f': "f' = ?f\<lparr>pos := pos ?f + length got,
                      at_eof := at_eof ?f \<or> length got < INBUF_SIZE\<rparr>"
    by (auto simp: fread_def Let_def)
  from inv have b: "pos ?f \<le> length (content ?f)"
    and pad: "\<forall>i\<in>{INBUF_SIZE..<INBUF_SIZE + padding}. inbuf w i = 0"
    and wk: "walk (content ?f) (calls w) = Some (drop (pos ?f) (content ?f))"
    and ok: "\<forall>c\<in>set (calls w). pad_ok padding c"
    and eof: "at_eof ?f \<longrightarrow> pos ?f = length (content ?f)"
    unfolding chunk_inv_def by auto
  show len: "length got \<le> INBUF_SIZE" by (simp add: got)
  show "content f' = content (infile w)" by (simp add: f')
  have lg: "length got \<le> length (content ?f) - pos ?f" by (simp add: got)
  have short: "length got < INBUF_SIZE \<Longrightarrow> pos ?f + length got = length (content ?f)"
    using b by (simp add: got min_def split: if_splits)
  show "got = [] \<Longrightarrow> pos f' = length (content f')"
    using short by (simp add: f' INBUF_SIZE_def)
  have nth: "\<forall>i<length got. got ! i = content ?f ! (pos ?f + i)"
    using b by (simp add: got)
  show "chunk_inv padding 0 (length got) (w\<lparr>infile := f', inbuf := store got (inbuf w)\<rparr>)"
    unfolding chunk_inv_def
    using b lg len pad wk ok eof short nth
    by (auto simp: f' store_def)
qed

lemma read_loop_inv:
  assumes "read_loop L out w = Some r"
  shows "parser_bounded L \<longrightarrow> chunk_inv padding 0 0 w \<longrightarrow>
     content (infile (final r)) = content (infile w) \<and>
     (case r of
        Returned w' \<Rightarrow> chunk_inv padding 0 0 w' \<and> pos (infile w') = length (content (infile w'))
      | Exited st w' \<Rightarrow> trace_ok padding (content (infile w)) (calls w'))"
proof (rule read_loop.raw_induct
    [where P = "\<lambda>L out w r. parser_bounded L \<longrightarrow> chunk_inv padding 0 0 w \<longrightarrow>
       content (infile (final r)) = content (infile w) \<and>
       (case r of
          Returned w' \<Rightarrow> chunk_inv padding 0 0 w' \<and> pos (infile w') = length (content (infile w'))
        | Exited st w' \<Rightarrow> trace_ok padding (content (infile w)) (calls w'))",
     OF _ assms], goal_cases)
  case (1 loop L out w r)
  show ?case
  proof (intro impI)
    assume pb: "parser_bounded L" and inv: "chunk_inv padding 0 0 w"
    let ?goal = "content (infile (final r)) = content (infile w) \<and>
       (case r of
          Returned w' \<Rightarrow> chunk_inv padding 0 0 w' \<and> pos (infile w') = length (content (infile w'))
        | Exited st w' \<Rightarrow> trace_ok padding (content (infile w)) (calls w'))"
    show ?goal
    proof (cases "at_eof (infile w)")
      case True
      with 1(2) have "r = Returned w" by simp
      moreover from inv True have "pos (infile w) = length (content (infile w))"
        unfolding chunk_inv_def by simp
      ultimately show ?thesis using inv by simp
    next
      case False
      obtain got f' where rd: "fread INBUF_SIZE (infile w) = (got, f')"
        by (cases "fread INBUF_SIZE (infile w)") auto
      let ?w1 = "w\<lparr>infile := f', inbuf := store got (inbuf w)\<rparr>"
      note fr = chunk_inv_fread[OF inv rd]
      from fr(2) have un: "unat (of_nat (length got) :: size_t) = length got"
        by (simp add: size_t_of_nat INBUF_SIZE_def)
      show ?thesis
      proof (cases "(of_nat (length got) :: size_t) = 0")
        case True
        with un have g0: "got = []" by simp
        from 1(2) False rd True have "r = Returned ?w1"
          by (simp add: Let_def)
        with fr(1,3) fr(4)[OF g0] g0 show ?thesis
          by simp
      next
        case nz: False
        from fr(1) un have inv1: "chunk_inv padding 0 (unat (of_nat (length got) :: size_t)) ?w1"
          by simp
        show ?thesis
        proof (cases "parse_loop L out 0 (of_nat (length got)) ?w1")
          case None
          with 1(2) False rd nz show ?thesis
            by (simp add: Let_def)
        next
          case (Some q)
          from parse_loop_inv[OF Some, of padding] pb inv1 fr(3)
          have q: "content (infile (final q)) = content (infile w)"
            "case q of Returned w' \<Rightarrow> chunk_inv padding 0 0 w'
                     | Exited st w' \<Rightarrow> trace_ok padding (content (infile w)) (calls w')"
            by (cases q; simp)+
          show ?thesis
          proof (cases q)
            case (Exited st w2)
            with 1(2) False rd nz Some have "r = Exited st w2"
              by (simp add: Let_def)
            with q Exited show ?thesis by simp
          next
            case (Returned w2)
            with 1(2) False rd nz Some have "loop L out w2 = Some r"
              by (simp add: Let_def)
            from 1(1)[OF this] pb q Returned show ?thesis
              by (cases r) simp_all
          qed
        qed
      qed
    qed
  qed
qed

section \<open>Runs of video_decode.cpp\<close>

lemma loop_effect_refl: "loop_effect w (Returned w)"
  unfolding loop_effect_def by simp

lemma loop_effect_trans:
  assumes "loop_effect w (Returned w1)" "loop_effect w1 r"
  shows "loop_effect w r"
proof -
  from assms obtain cs ds where
    "calls w1 = calls w @ cs" "\<forall>c\<in>set cs. data_call c"
    "calls (final r) = calls w1 @ ds" "\<forall>c\<in>set ds. data_call c"
    unfolding loop_effect_def by auto
  then have "calls (final r) = calls w @ (cs @ ds) \<and> (\<forall>c\<in>set (cs @ ds). data_call c)"
    by auto
  then have "\<exists>cs. calls (final r) = calls w @ cs \<and> (\<forall>c\<in>set cs. data_call c)"
    by blast
  with assms show ?thesis
    unfolding loop_effect_def by (cases r) auto
qed

lemma loop_effect_start:
  "calls w0 = calls w \<Longrightarrow> err_stream w0 = err_stream w \<Longrightarrow> loop_effect w0 r \<Longrightarrow> loop_effect w r"
  unfolding loop_effect_def by (cases r) simp_all

lemma decode_effect:
  assumes "decode L p fn w = Some r"
  shows "(\<exists>s rs. calls (final r) = calls w @ SendPacket p s # map ReceiveFrame rs)
       \<and> (case r of
             Returned w' \<Rightarrow> err_stream w' = err_stream w
           | Exited st w' \<Rightarrow> st = 1 \<and> (\<exists>m. err_stream w' = err_stream w @ [m]))"
proof -
  from decode_verdict[OF assms] show ?thesis
  proof
    assume "\<exists>s w'. s < 0 \<and> r = Exited 1 w' \<and> calls w' = calls w @ [SendPacket p s]
            \<and> err_stream w' = err_stream w @ [''Error sending a packet for decoding'']"
    then obtain s w' where "r = Exited 1 w'" "calls w' = calls w @ SendPacket p s # map ReceiveFrame []"
         "err_stream w' = err_stream w @ [''Error sending a packet for decoding'']"
      by auto
    then show ?thesis by auto
  next
    assume "\<exists>s. 0 \<le> s \<and> drained (AVERROR_EAGAIN L) (AVERROR_EOF L) ReceiveFrame
                ''Error during decoding'' (calls w @ [SendPacket p s]) (err_stream w) r"
    then obtain s rs x where
      c: "calls (final r) = (calls w @ [SendPacket p s]) @ map ReceiveFrame rs @ [ReceiveFrame x]"
      and e: "case r of
              Returned w' \<Rightarrow> (x = AVERROR_EAGAIN L \<or> x = AVERROR_EOF L) \<and> err_stream w' = err_stream w
            | Exited st w' \<Rightarrow> st = 1 \<and> x < 0 \<and> x \<noteq> AVERROR_EAGAIN L \<and> x \<noteq> AVERROR_EOF L
                 \<and> err_stream w' = err_stream w @ [''Error during decoding'']"
      unfolding drained_def by blast
    from c have "calls (final r) = calls w @ SendPacket p s # map ReceiveFrame (rs @ [x])"
      by simp
    then have "\<exists>s rs. calls (final r) = calls w @ SendPacket p s # map ReceiveFrame rs"
      by blast
    with e show ?thesis by (cases r) auto
  qed
qed

lemma decode_loop_effect:
  assumes "decode L (Some p) fn w = Some r"
  shows "loop_effect w r"
proof -
  from decode_effect[OF assms] obtain s rs where
    "calls (final r) = calls w @ SendPacket (Some p) s # map ReceiveFrame rs"
    by blast
  moreover have "\<forall>c\<in>set (SendPacket (Some p) s # map ReceiveFrame rs). data_call c"
    by auto
  ultimately have "\<exists>cs. calls (final r) = calls w @ cs \<and> (\<forall>c\<in>set cs. data_call c)"
    by blast
  with decode_effect[OF assms] show ?thesis
    unfolding loop_effect_def by simp
qed

lemma parse_loop_effect:
  assumes "parse_loop L out d ds w = Some r"
  shows "loop_effect w r"
proof (rule parse_loop.raw_induct
    [where P = "\<lambda>L out d ds w r. loop_effect w r", OF _ assms], goal_cases)
  case (1 loop L out d ds w r)
  show ?case
  proof (cases "0 < ds")
    case False
    with 1(2) show ?thesis by (auto simp: loop_effect_refl)
  next
    case True
    obtain ret pd psz ps e where
      pr: "av_parser_parse2 L (parser w) (ctx w) (inbuf w) d (size_t_to_int ds) = (ret, (pd, psz), ps, e)"
      by (cases "av_parser_parse2 L (parser w) (ctx w) (inbuf w) d (size_t_to_int ds)") auto
    let ?w1 = "record_call (Parse (inbuf w) d (size_t_to_int ds) ret)
                 (w\<lparr>parser := ps, ctx := e, pkt := (pkt w)\<lparr>pkt_data := pd, pkt_size := psz\<rparr>\<rparr>)"
    have "calls ?w1 = calls w @ [Parse (inbuf w) d (size_t_to_int ds) ret]"
      "err_stream ?w1 = err_stream w"
      by (simp_all add: record_call_def)
    then have e1: "loop_effect w (Returned ?w1)"
      unfolding loop_effect_def by simp
    show ?thesis
    proof (cases "ret < 0")
      case True
      with 1(2) \<open>0 < ds\<close> pr have "r = Exited 1 (eprint ''Error while parsing'' ?w1)"
        by (simp add: Let_def)
      then have "loop_effect ?w1 r"
        unfolding loop_effect_def by simp
      with e1 show ?thesis by (rule loop_effect_trans)
    next
      case False
      show ?thesis
      proof (cases "psz = 0")
        case True
        with 1(2) \<open>0 < ds\<close> pr False
        have "loop L out (d + nat ret) (ds - word_of_int ret) ?w1 = Some r"
          by (simp add: Let_def record_call_def)
        from e1 1(1)[OF this] show ?thesis by (rule loop_effect_trans)
      next
        case nz: False
        show ?thesis
        proof (cases "decode L (Some (pkt ?w1)) out ?w1")
          case None
          with 1(2) \<open>0 < ds\<close> pr False nz show ?thesis
            by (simp add: Let_def record_call_def)
        next
          case (Some q)
          note e2 = decode_loop_effect[OF Some]
          show ?thesis
          proof (cases q)
            case (Exited st w2)
            with 1(2) \<open>0 < ds\<close> pr False nz Some have "r = q"
              by (simp add: Let_def record_call_def)
            with e1 e2 show ?thesis by (simp add: loop_effect_trans)
          next
            case (Returned w2)
            with 1(2) \<open>0 < ds\<close> pr False nz Some
            have "loop L out (d + nat ret) (ds - word_of_int ret) w2 = Some r"
              by (simp add: Let_def record_call_def)
            from 1(1)[OF this] e1 e2 Returned show ?thesis
              by (metis loop_effect_trans)
          qed
        qed
      qed
    qed
  qed
qed

lemma read_loop_effect:
  assumes "read_loop L out w = Some r"
  shows "loop_effect w r"
proof (rule read_loop.raw_induct
    [where P = "\<lambda>L out w r. loop_effect w r", OF _ assms], goal_cases)
  case (1 loop L out w r)
  show ?case
  proof (cases "at_eof (infile w)")
    case True
    with 1(2) show ?thesis by (auto simp: loop_effect_refl)
  next
    case False
    obtain got f' where rd: "fread INBUF_SIZE (infile w) = (got, f')"
      by (cases "fread INBUF_SIZE (infile w)") auto
    let ?w1 = "w\<lparr>infile := f', inbuf := store got (inbuf w)\<rparr>"
    have e1: "loop_effect w (Returned ?w1)"
      unfolding loop_effect_def by simp
    show ?thesis
    proof (cases "(of_nat (length got) :: size_t) = 0")
      case True
      with 1(2) False rd have "r = Returned ?w1"
        by (simp add: Let_def)
      with e1 show ?thesis by simp
    next
      case nz: False
      show ?thesis
      proof (cases "parse_loop L out 0 (of_nat (length got)) ?w1")
        case None
        with 1(2) False rd nz show ?thesis
          by (simp add: Let_def)
      next
        case (Some q)
        note e2 = parse_loop_effect[OF Some]
        show ?thesis
        proof (cases q)
          case (Exited st w2)
          with 1(2) False rd nz Some have "r = q"
            by (simp add: Let_def)
          with e1 e2 show ?thesis by (simp add: loop_effect_trans)
        next
          case (Returned w2)
          with 1(2) False rd nz Some have "loop L out w2 = Some r"
            by (simp add: Let_def)
          from 1(1)[OF this] e1 e2 Returned show ?thesis
            by (metis loop_effect_trans)
        qed
      qed
    qed
  qed
qed

lemma decode_start_fields [simp]:
  "calls (decode_start L p c ps fr pk bytes) = calls p"
  "err_stream (decode_start L p c ps fr pk bytes) = err_stream p"
  "created (decode_start L p c ps fr pk bytes) = created p"
  "fs (decode_start L p c ps fr pk bytes) = fs p"
  "infile (decode_start L p c ps fr pk bytes) = \<lparr>content = bytes, pos = 0, at_eof = False\<rparr>"
  "inbuf (decode_start L p c ps fr pk bytes)
     = memset (garbage L) INBUF_SIZE 0 (AV_INPUT_BUFFER_PADDING_SIZE L)"
  "ctx (decode_start L p c ps fr pk bytes) = c"
  by (simp_all add: decode_start_def process.defs decode_state.defs)

lemma truncate_fields [simp]:
  "calls (process.truncate w) = calls w"
  "err_stream (process.truncate w) = err_stream w"
  "created (process.truncate w) = created w"
  "fs (process.truncate w) = fs w"
  by (simp_all add: process.defs)

lemma decode_main_split:
  assumes "decode_main L files argv = Some (st, p)" "3 < length argv"
  shows "(st = 1 \<and> calls p = []
          \<and> ((err_stream p = [] \<and> av_packet_alloc L 1 = None) \<or> (\<exists>m. err_stream p = [m])))
    \<or> (\<exists>bytes c ps fr pk w. files (argv ! 1) = Some bytes \<and>
          read_loop L (argv ! 2)
            (decode_start L (process0 files\<lparr>allocs := 2\<rparr>) c ps fr pk bytes)
            = Some (Exited st w) \<and> p = process.truncate w)
    \<or> (\<exists>bytes c ps fr pk w1 w2. files (argv ! 1) = Some bytes \<and>
          read_loop L (argv ! 2)
            (decode_start L (process0 files\<lparr>allocs := 2\<rparr>) c ps fr pk bytes)
            = Some (Returned w1) \<and>
          decode L None (argv ! 2) w1 = Some (Exited st w2) \<and> p = process.truncate w2)
    \<or> (\<exists>bytes c ps fr pk w1 w2. files (argv ! 1) = Some bytes \<and>
          read_loop L (argv ! 2)
            (decode_start L (process0 files\<lparr>allocs := 2\<rparr>) c ps fr pk bytes)
            = Some (Returned w1) \<and>
          decode L None (argv ! 2) w1 = Some (Returned w2) \<and> st = 0 \<and> p = process.truncate w2)"
  using assms
  unfolding decode_main_def Let_def
  apply (simp add: process0_def eprint_def count_alloc_def numeral_2_eq_2
               split: option.splits prod.splits if_splits outcome.splits)
  apply (auto simp: numeral_2_eq_2)
  apply blast+
  done

lemma chunk_inv_start:
  "calls p = [] \<Longrightarrow>
   chunk_inv (AV_INPUT_BUFFER_PADDING_SIZE L) 0 0 (decode_start L p c ps fr pk bytes)"
  unfolding chunk_inv_def by (simp add: memset_def walk_def)

lemma flush_keeps_walk:
  assumes "decode L None fn w = Some r"
  shows "walk bytes (calls (final r)) = walk bytes (calls w)"
    and "(\<forall>c\<in>set (calls (final r)). pad_ok k c) = (\<forall>c\<in>set (calls w). pad_ok k c)"
proof -
  from decode_calls[OF assms] obtain ds where
    ds: "calls (final r) = calls w @ ds" "\<forall>c\<in>set ds. \<not> is_parse c"
    by blast
  show "walk bytes (calls (final r)) = walk bytes (calls w)"
    using ds by (simp add: walk_nonparse)
  show "(\<forall>c\<in>set (calls (final r)). pad_ok k c) = (\<forall>c\<in>set (calls w). pad_ok k c)"
    using ds by (auto simp: pad_ok_nonparse)
qed

lemma decode_main_trace:
  assumes run: "decode_main L files argv = Some (st, p)"
    and pb: "parser_bounded L"
    and len: "3 < length argv"
    and inp: "files (argv ! 1) = Some bytes"
  shows "(\<exists>rest. walk bytes (calls p) = Some rest \<and> (st = 0 \<longrightarrow> rest = []))
       \<and> (\<forall>c\<in>set (calls p). pad_ok (AV_INPUT_BUFFER_PADDING_SIZE L) c)"
proof -
  let ?pad = "AV_INPUT_BUFFER_PADDING_SIZE L"
  let ?p2 = "process0 files\<lparr>allocs := 2\<rparr>"
  have inv0: "\<And>c ps fr pk. chunk_inv ?pad 0 0 (decode_start L ?p2 c ps fr pk bytes)"
    by (rule chunk_inv_start) (simp add: process0_def)
  from decode_main_split[OF run len]
  consider
    (startup) "st = 1" "calls p = []"
  | (loop_exit) c ps fr pk w where
      "read_loop L (argv ! 2) (decode_start L ?p2 c ps fr pk bytes) = Some (Exited st w)"
      "p = process.truncate w"
  | (flush_exit) c ps fr pk w1 w2 where
      "read_loop L (argv ! 2) (decode_start L ?p2 c ps fr pk bytes) = Some (Returned w1)"
      "decode L None (argv ! 2) w1 = Some (Exited st w2)" "p = process.truncate w2"
  | (finished) c ps fr pk w1 w2 where
      "read_loop L (argv ! 2) (decode_start L ?p2 c ps fr pk bytes) = Some (Returned w1)"
      "decode L None (argv ! 2) w1 = Some (Returned w2)" "st = 0" "p = process.truncate w2"
    using inp by auto
  then show ?thesis
  proof cases
    case startup
    then show ?thesis by (simp add: walk_def)
  next
    case loop_exit
    from read_loop_inv[OF loop_exit(1), of ?pad] pb inv0
    have "trace_ok ?pad bytes (calls w)" by simp
    moreover from read_loop_effect[OF loop_exit(1)] have "st = 1"
      unfolding loop_effect_def by simp
    ultimately show ?thesis
      using loop_exit(2) unfolding trace_ok_def by simp
  next
    case flush_exit
    from read_loop_inv[OF flush_exit(1), of ?pad] pb inv0
    have "chunk_inv ?pad 0 0 w1" by simp
    then have "trace_ok ?pad bytes (calls w1)"
      using read_loop_inv[OF flush_exit(1), of ?pad] pb inv0 chunk_inv_trace_ok[of ?pad 0 0 w1]
      by simp
    moreover from decode_effect[OF flush_exit(2)] have "st = 1" by simp
    ultimately show ?thesis
      using flush_keeps_walk[OF flush_exit(2)] flush_exit(3)
      unfolding trace_ok_def by simp
  next
    case finished
    from read_loop_inv[OF finished(1), of ?pad] pb inv0
    have inv: "chunk_inv ?pad 0 0 w1" and full: "pos (infile w1) = length (content (infile w1))"
      and same: "content (infile w1) = bytes"
      by simp_all
    from inv full same have "walk bytes (calls w1) = Some []"
      "\<forall>c\<in>set (calls w1). pad_ok ?pad c"
      unfolding chunk_inv_def by simp_all
    then show ?thesis
      using flush_keeps_walk[OF finished(2)] finished(4) by simp
  qed
qed

lemma decode_main_usage:
  assumes "decode_main L files argv = Some (st, p)" "length argv \<le> 3"
  shows "st = 0 \<and> calls p = []
       \<and> err_stream p = [''Usage: '' @ argv0 argv @ '' <input file> <output file> <codec name>'']"
  using assms by (auto simp: decode_main_def process0_def eprint_def)

lemma toy_parser_bounded: "parser_bounded toy_decoder"
  unfolding parser_bounded_def by (auto simp: toy_decoder_def toy_parse_def Let_def)

lemmas run_defs = decode_main_def decode_start_def read_loop.simps parse_loop.simps
  decode_def decode_loop.simps toy_defs io_defs fread_def store_def memset_def INBUF_SIZE_def
  process.defs decode_state.defs size_t_to_int_def toy_parse_def process0_def count_alloc_def
  argv0_def upt_conv_Cons

text \<open>C3. When \<^verbatim>\<open>video_decode\<close> runs on an input file, every parse call is offered
  bytes that begin exactly at the first byte of the file that no earlier call has
  consumed (the cursor has advanced by the consumed length, neither more nor less), and
  when the program ends with status 0 the parse calls have consumed the whole file: no
  byte is consumed twice and none is skipped, wherever the chunk and packet boundaries
  fall.\<close>

theorem cursor_covers_input:
  assumes "decode_main L files argv = Some (st, p)"
    and "parser_bounded L"
    and "3 < length argv"
    and "files (argv ! 1) = Some bytes"
  shows "\<exists>rest. walk bytes (calls p) = Some rest \<and> (st = 0 \<longrightarrow> rest = [])"
  using decode_main_trace[OF assms] by blast

theorem cursor_covers_input_witness:
  "\<exists>p. decode_main toy_decoder [''in'' \<mapsto> [1, 2, 3, 4, 5, 6, 7]]
          [''video_decode'', ''in'', ''out'', ''toy''] = Some (0, p)
      \<and> parser_bounded toy_decoder
      \<and> walk [1, 2, 3, 4, 5, 6, 7] (calls p) = Some []"
proof -
  obtain p where run: "decode_main toy_decoder [''in'' \<mapsto> [1, 2, 3, 4, 5, 6, 7]]
          [''video_decode'', ''in'', ''out'', ''toy''] = Some (0, p)"
    by (simp add: run_defs)
  from cursor_covers_input[OF run toy_parser_bounded, of "[1, 2, 3, 4, 5, 6, 7]"]
  have "walk [1, 2, 3, 4, 5, 6, 7] (calls p) = Some []"
    by simp
  with run toy_parser_bounded show ?thesis by blast
qed

text \<open>C4. The padding region of \<^verbatim>\<open>inbuf\<close> lies behind the chunk area of
  \<open>INBUF_SIZE\<close> bytes; it holds zeros when the read loop is entered and at every
  parse call; a read delivers at most \<open>INBUF_SIZE\<close> bytes; and the bytes offered to
  the parser always lie inside the chunk area, so the padding is never part of the
  data size.\<close>

theorem padding_zeroed_and_never_offered:
  assumes "decode_main L files argv = Some (st, p)"
    and "parser_bounded L"
  shows "(\<forall>c\<in>set (calls p). pad_ok (AV_INPUT_BUFFER_PADDING_SIZE L) c)
       \<and> (\<forall>i\<in>{INBUF_SIZE..<INBUF_SIZE + AV_INPUT_BUFFER_PADDING_SIZE L}.
             inbuf (decode_start L q c ps fr pk bytes) i = 0)
       \<and> length (fst (fread INBUF_SIZE f)) \<le> INBUF_SIZE"
proof -
  have "\<forall>c\<in>set (calls p). pad_ok (AV_INPUT_BUFFER_PADDING_SIZE L) c"
  proof (cases "length argv \<le> 3")
    case True
    with decode_main_usage[OF assms(1)] show ?thesis by simp
  next
    case False
    then have len: "3 < length argv" by simp
    show ?thesis
    proof (cases "files (argv ! 1)")
      case None
      with decode_main_split[OF assms(1) len] show ?thesis by auto
    next
      case (Some bytes)
      from decode_main_trace[OF assms len Some] show ?thesis by blast
    qed
  qed
  then show ?thesis
    by (simp add: memset_def fread_def Let_def)
qed

theorem padding_zeroed_and_never_offered_witness:
  "\<exists>p. decode_main toy_decoder [''in'' \<mapsto> [1, 2, 3, 4, 5, 6, 7]]
          [''video_decode'', ''in'', ''out'', ''toy''] = Some (0, p)
      \<and> parser_bounded toy_decoder
      \<and> length (filter is_parse (calls p)) = 3
      \<and> (\<forall>c\<in>set (calls p). pad_ok 64 c)"
proof -
  obtain p where run: "decode_main toy_decoder [''in'' \<mapsto> [1, 2, 3, 4, 5, 6, 7]]
          [''video_decode'', ''in'', ''out'', ''toy''] = Some (0, p)"
    and n: "length (filter is_parse (calls p)) = 3"
    by (simp add: run_defs)
  from padding_zeroed_and_never_offered[OF run toy_parser_bounded]
  have "\<forall>c\<in>set (calls p). pad_ok 64 c"
    by (simp add: toy_decoder_def)
  with run n toy_parser_bounded show ?thesis by blast
qed

section \<open>Artifact names of video_decode.cpp\<close>

lemma created_simps [simp]:
  "created (eprint s w) = created w"
  "created (oprint s w) = created w"
  "created (record_call k w) = created w"
  "created (fwrite bs n w) = created w"
  "created (fopen_w n w) = created w @ [n]"
  "created (pgm_written b wr x y n w) = created w @ [n]"
  by (simp_all add: eprint_def oprint_def fwrite_def fopen_w_def pgm_written_def record_call_def)

lemma ctx_simps [simp]:
  "ctx (eprint s w) = ctx w"
  "ctx (oprint s w) = ctx w"
  "ctx (record_call k w) = ctx w"
  "ctx (pgm_written b wr x y n w) = ctx w"
  "frame (eprint s w) = frame w"
  "frame (oprint s w) = frame w"
  "frame (record_call k w) = frame w"
  "frame (pgm_written b wr x y n w) = frame w"
  by (simp_all add: eprint_def oprint_def fwrite_def fopen_w_def pgm_written_def record_call_def)

text \<open>One call of \<^verbatim>\<open>decode\<close>: every artifact is named after the engine state that the
  receive call producing its frame has left.\<close>

lemma decode_loop_created:
  assumes "decode_loop L fn ret w = Some r"
  shows "0 \<le> ret \<longrightarrow>
     (\<exists>m. created (final r) = created w @
        map (\<lambda>e. artifact_name fn (frame_number L e))
          (produced_states L (ctx w) (frame w) m))"
proof (rule decode_loop.raw_induct
    [where P = "\<lambda>L fn ret w r. 0 \<le> ret \<longrightarrow>
     (\<exists>m. created (final r) = created w @
        map (\<lambda>e. artifact_name fn (frame_number L e))
          (produced_states L (ctx w) (frame w) m))", OF _ assms], goal_cases)
  case (1 loop L fn ret w r)
  show ?case
  proof
    assume nn: "0 \<le> ret"
    let ?name = "\<lambda>e. artifact_name fn (frame_number L e)"
    obtain ret' fr e where rc: "avcodec_receive_frame L (ctx w) (frame w) = (ret', fr, e)"
      by (cases "avcodec_receive_frame L (ctx w) (frame w)") auto
    let ?w1 = "record_call (ReceiveFrame ret') (w\<lparr>ctx := e, frame := fr\<rparr>)"
    show "\<exists>m. created (final r) = created w @ map ?name (produced_states L (ctx w) (frame w) m)"
    proof (cases "0 \<le> ret' \<and> ret' \<noteq> AVERROR_EAGAIN L \<and> ret' \<noteq> AVERROR_EOF L")
      case False
      with 1(2) rc nn have "created (final r) = created w"
        by (auto simp: Let_def split: if_splits)
      then have "created (final r) = created w @ map ?name (produced_states L (ctx w) (frame w) 0)"
        by simp
      then show ?thesis by blast
    next
      case True
      let ?w2 = "oprint (''saving frame '' @ show_int_w 3 (sint (frame_number L (ctx ?w1)))) ?w1"
      let ?w3 = "pgm_written (data (frame ?w2) 0) (linesize (frame ?w2) 0)
                     (width (frame ?w2)) (height (frame ?w2))
                     (snprintf 1024 (fn @ ''-'' @ show_int (sint (frame_number L (ctx ?w2))))) ?w2"
      from 1(2) rc nn True have "loop L fn ret' ?w3 = Some r"
        by (simp add: Let_def pgm_save_def split: if_splits)
      from 1(1)[OF this] True obtain m where
        "created (final r) = created ?w3 @ map ?name (produced_states L (ctx ?w3) (frame ?w3) m)"
        by blast
      then have "created (final r) = created w @ map ?name (produced_states L (ctx w) (frame w) (Suc m))"
        using rc True by (simp add: artifact_name_def)
      then show ?thesis by blast
    qed
  qed
qed

lemma decode_created:
  assumes "decode L p fn w = Some r"
  shows "\<exists>m. created (final r) = created w @
        map (\<lambda>e. artifact_name fn (frame_number L e))
          (produced_states L (snd (avcodec_send_packet L (ctx w) p)) (frame w) m)"
proof -
  let ?name = "\<lambda>e. artifact_name fn (frame_number L e)"
  obtain s e where sd: "avcodec_send_packet L (ctx w) p = (s, e)"
    by (cases "avcodec_send_packet L (ctx w) p") auto
  show ?thesis
  proof (cases "s < 0")
    case True
    with assms sd have "created (final r) = created w @ map ?name (produced_states L e (frame w) 0)"
      by (auto simp: decode_def Let_def)
    with sd show ?thesis by (metis snd_conv)
  next
    case False
    with assms sd
    have "decode_loop L fn s (record_call (SendPacket p s) (w\<lparr>ctx := e\<rparr>)) = Some r"
      by (simp add: decode_def Let_def)
    from decode_loop_created[OF this] False sd show ?thesis
      by simp
  qed
qed

text \<open>The whole run: the invariant \<open>named_from\<close> through the loops, for an engine that
  counts its frames.\<close>

lemma named_from_same:
  assumes "named_from L base n0 w" and "created w' = created w"
    and "frame_number L (ctx w') = frame_number L (ctx w)"
  shows "named_from L base n0 w'"
  using assms unfolding named_from_def by simp

lemma named_from_next:
  assumes "named_from L base n0 w"
    and "frame_number L (ctx w') = frame_number L (ctx w) + 1"
    and "created w' = created w @ [artifact_name base (frame_number L (ctx w'))]"
  shows "named_from L base n0 w'"
proof -
  let ?f = "\<lambda>k. artifact_name base (n0 + word_of_nat (Suc k))"
  from assms(1) have c: "created w = map ?f [0..<length (created w)]"
    and n: "frame_number L (ctx w) = n0 + word_of_nat (length (created w))"
    unfolding named_from_def by simp_all
  from assms(2) n
  have n': "frame_number L (ctx w') = n0 + word_of_nat (Suc (length (created w)))"
    by simp
  have len: "length (created w') = Suc (length (created w))" by (simp add: assms(3))
  have "created w' = map ?f [0..<length (created w)] @ [?f (length (created w))]"
    using c by (simp add: assms(3) n')
  hence "created w' = map ?f [0..<length (created w')]" by (simp add: len)
  with n' len show ?thesis unfolding named_from_def by simp
qed

lemma decode_loop_named:
  assumes "decode_loop L fn ret w = Some r"
  shows "frame_counting L \<and> named_from L fn n0 w \<longrightarrow> named_from L fn n0 (final r)"
proof (rule decode_loop.raw_induct
    [where P = "\<lambda>L fn ret w r. frame_counting L \<and> named_from L fn n0 w
                  \<longrightarrow> named_from L fn n0 (final r)", OF _ assms], goal_cases)
  case (1 loop L fn ret w r)
  show ?case
  proof
    assume a: "frame_counting L \<and> named_from L fn n0 w"
    hence fc: "frame_counting L" and nf: "named_from L fn n0 w" by simp_all
    show "named_from L fn n0 (final r)"
    proof (cases "0 \<le> ret")
      case False
      with 1(2) nf show ?thesis by auto
    next
      case nn: True
      obtain ret' fr e where rc: "avcodec_receive_frame L (ctx w) (frame w) = (ret', fr, e)"
        by (cases "avcodec_receive_frame L (ctx w) (frame w)") auto
      from fc rc have cnt: "frame_number L e =
           (if 0 \<le> ret' \<and> ret' \<noteq> AVERROR_EAGAIN L \<and> ret' \<noteq> AVERROR_EOF L
            then frame_number L (ctx w) + 1 else frame_number L (ctx w))"
        unfolding frame_counting_def by blast
      let ?w1 = "record_call (ReceiveFrame ret') (w\<lparr>ctx := e, frame := fr\<rparr>)"
      show ?thesis
      proof (cases "0 \<le> ret' \<and> ret' \<noteq> AVERROR_EAGAIN L \<and> ret' \<noteq> AVERROR_EOF L")
        case False
        with cnt have c: "frame_number L e = frame_number L (ctx w)" by simp
        from nf have w1: "named_from L fn n0 ?w1"
          by (rule named_from_same) (simp_all add: c record_call_def)
        from 1(2) rc nn False
        have k: "created (final r) = created ?w1 \<and> ctx (final r) = ctx ?w1"
          by (auto simp: Let_def split: if_splits)
        from w1 show ?thesis by (rule named_from_same) (simp_all add: k)
      next
        case True
        let ?w2 = "oprint (''saving frame '' @ show_int_w 3 (sint (frame_number L (ctx ?w1)))) ?w1"
        let ?w3 = "pgm_written (data (frame ?w2) 0) (linesize (frame ?w2) 0)
                     (width (frame ?w2)) (height (frame ?w2))
                     (snprintf 1024 (fn @ ''-'' @ show_int (sint (frame_number L (ctx ?w2))))) ?w2"
        from 1(2) rc nn True have lp: "loop L fn ret' ?w3 = Some r"
          by (simp add: Let_def pgm_save_def split: if_splits)
        from cnt True have c: "frame_number L e = frame_number L (ctx w) + 1" by simp
        from nf have "named_from L fn n0 ?w3"
          by (rule named_from_next) (simp_all add: c artifact_name_def)
        with 1(1)[OF lp] fc show ?thesis by simp
      qed
    qed
  qed
qed

lemma decode_named:
  assumes "decode L p fn w = Some r" and "frame_counting L" and "named_from L fn n0 w"
  shows "named_from L fn n0 (final r)"
proof -
  obtain s e where sd: "avcodec_send_packet L (ctx w) p = (s, e)"
    by (cases "avcodec_send_packet L (ctx w) p") auto
  from assms(2) sd have cnt: "frame_number L e = frame_number L (ctx w)"
    unfolding frame_counting_def by blast
  let ?w1 = "record_call (SendPacket p s) (w\<lparr>ctx := e\<rparr>)"
  from assms(3) have w1: "named_from L fn n0 ?w1"
    by (rule named_from_same) (simp_all add: cnt record_call_def)
  show ?thesis
  proof (cases "s < 0")
    case True
    with assms(1) sd have r: "r = Exited 1 (eprint ''Error sending a packet for decoding'' ?w1)"
      by (simp add: decode_def Let_def)
    from w1 show ?thesis by (rule named_from_same) (simp_all add: r)
  next
    case False
    with assms(1) sd have "decode_loop L fn s ?w1 = Some r"
      by (simp add: decode_def Let_def)
    from decode_loop_named[OF this, of n0] assms(2) w1 show ?thesis by simp
  qed
qed

lemma parse_loop_named:
  assumes "parse_loop L out d ds w = Some r"
  shows "frame_counting L \<and> named_from L out n0 w \<longrightarrow> named_from L out n0 (final r)"
proof (rule parse_loop.raw_induct
    [where P = "\<lambda>L out d ds w r. frame_counting L \<and> named_from L out n0 w
                  \<longrightarrow> named_from L out n0 (final r)", OF _ assms], goal_cases)
  case (1 loop L out d ds w r)
  show ?case
  proof
    assume a: "frame_counting L \<and> named_from L out n0 w"
    hence fc: "frame_counting L" and nf: "named_from L out n0 w" by simp_all
    show "named_from L out n0 (final r)"
    proof (cases "0 < ds")
      case False
      with 1(2) nf show ?thesis by auto
    next
      case True
      obtain ret pd psz ps e where
        pr: "av_parser_parse2 L (parser w) (ctx w) (inbuf w) d (size_t_to_int ds)
               = (ret, (pd, psz), ps, e)"
        by (cases "av_parser_parse2 L (parser w) (ctx w) (inbuf w) d (size_t_to_int ds)") auto
      from fc pr have cnt: "frame_number L e = frame_number L (ctx w)"
        unfolding frame_counting_def by blast
      let ?w1 = "record_call (Parse (inbuf w) d (size_t_to_int ds) ret)
                   (w\<lparr>parser := ps, ctx := e, pkt := (pkt w)\<lparr>pkt_data := pd, pkt_size := psz\<rparr>\<rparr>)"
      from nf have w1: "named_from L out n0 ?w1"
        by (rule named_from_same) (simp_all add: cnt record_call_def)
      show ?thesis
      proof (cases "ret < 0")
        case True
        with 1(2) \<open>0 < ds\<close> pr have r: "r = Exited 1 (eprint ''Error while parsing'' ?w1)"
          by (simp add: Let_def)
        from w1 show ?thesis by (rule named_from_same) (simp_all add: r)
      next
        case False
        show ?thesis
        proof (cases "psz = 0")
          case True
          with 1(2) \<open>0 < ds\<close> pr False
          have "loop L out (d + nat ret) (ds - word_of_int ret) ?w1 = Some r"
            by (simp add: Let_def record_call_def)
          from 1(1)[OF this] fc w1 show ?thesis by simp
        next
          case nz: False
          show ?thesis
          proof (cases "decode L (Some (pkt ?w1)) out ?w1")
            case None
            with 1(2) \<open>0 < ds\<close> pr False nz show ?thesis
              by (simp add: Let_def record_call_def)
          next
            case (Some q)
            note w2 = decode_named[OF Some fc w1]
            show ?thesis
            proof (cases q)
              case (Exited st w2')
              with 1(2) \<open>0 < ds\<close> pr False nz Some have "r = q"
                by (simp add: Let_def record_call_def)
              with w2 show ?thesis by simp
            next
              case (Returned w2')
              with 1(2) \<open>0 < ds\<close> pr False nz Some
              have "loop L out (d + nat ret) (ds - word_of_int ret) w2' = Some r"
                by (simp add: Let_def record_call_def)
              from 1(1)[OF this] fc w2 Returned show ?thesis by simp
            qed
          qed
        qed
      qed
    qed
  qed
qed

lemma read_loop_named:
  assumes "read_loop L out w = Some r"
  shows "frame_counting L \<and> named_from L out n0 w \<longrightarrow> named_from L out n0 (final r)"
proof (rule read_loop.raw_induct
    [where P = "\<lambda>L out w r. frame_counting L \<and> named_from L out n0 w
                  \<longrightarrow> named_from L out n0 (final r)", OF _ assms], goal_cases)
  case (1 loop L out w r)
  show ?case
  proof
    assume a: "frame_counting L \<and> named_from L out n0 w"
    hence fc: "frame_counting L" and nf: "named_from L out n0 w" by simp_all
    show "named_from L out n0 (final r)"
    proof (cases "at_eof (infile w)")
      case True
      with 1(2) nf show ?thesis by auto
    next
      case False
      obtain got f' where rd: "fread INBUF_SIZE (infile w) = (got, f')"
        by (cases "fread INBUF_SIZE (infile w)") auto
      let ?w1 = "w\<lparr>infile := f', inbuf := store got (inbuf w)\<rparr>"
      from nf have w1: "named_from L out n0 ?w1"
        by (rule named_from_same) simp_all
      show ?thesis
      proof (cases "(of_nat (length got) :: size_t) = 0")
        case True
        with 1(2) False rd have "r = Returned ?w1"
          by (simp add: Let_def)
        with w1 show ?thesis by simp
      next
        case nz: False
        show ?thesis
        proof (cases "parse_loop L out 0 (of_nat (length got)) ?w1")
          case None
          with 1(2) False rd nz show ?thesis
            by (simp add: Let_def)
        next
          case (Some q)
          from parse_loop_named[OF Some, of n0] fc w1
          have w2: "named_from L out n0 (final q)" by simp
          show ?thesis
          proof (cases q)
            case (Exited st w2')
            with 1(2) False rd nz Some have "r = q"
              by (simp add: Let_def)
            with w2 show ?thesis by simp
          next
            case (Returned w2')
            with 1(2) False rd nz Some have "loop L out w2' = Some r"
              by (simp add: Let_def)
            from 1(1)[OF this] fc w2 Returned show ?thesis by simp
          qed
        qed
      qed
    qed
  qed
qed

lemma named_from_start:
  "created p = [] \<Longrightarrow> named_from L out (frame_number L c) (decode_start L p c ps fr pk bytes)"
  unfolding named_from_def by simp

lemma decode_main_reaches_loop:
  assumes run: "decode_main L files argv = Some (st, p)" and len: "3 < length argv"
    and find: "avcodec_find_decoder_by_name L (argv ! 3) = Some codec"
    and alloc: "avcodec_alloc_context3 L codec = Some c0"
    and op: "avcodec_open2 L c0 codec = (r, c1)"
  shows "created p = []
       \<or> (\<exists>p2 ps fr pk bytes q. created p2 = []
             \<and> read_loop L (argv ! 2) (decode_start L p2 c1 ps fr pk bytes) = Some q
             \<and> ((\<exists>w. q = Exited st w \<and> p = process.truncate w)
                \<or> (\<exists>w1 q2. q = Returned w1 \<and> decode L None (argv ! 2) w1 = Some q2
                      \<and> p = process.truncate (final q2))))"
proof (cases "av_parser_init L codec")
  case None
  with assms show ?thesis
    by (auto simp: decode_main_def Let_def process0_def eprint_def)
next
  case (Some ps)
  note ps = this
  let ?p0 = "process0 files"
  show ?thesis
  proof (cases "av_frame_alloc L (allocs ?p0)")
    case None
    with assms ps show ?thesis
      by (auto simp: decode_main_def Let_def process0_def eprint_def count_alloc_def)
  next
    case (Some fr)
    note fr = this
    let ?p1 = "count_alloc ?p0"
    show ?thesis
    proof (cases "av_packet_alloc L (allocs ?p1)")
      case None
      with assms ps fr show ?thesis
        by (auto simp: decode_main_def Let_def process0_def eprint_def count_alloc_def)
    next
      case (Some pk)
      note pk = this
      let ?p2 = "count_alloc ?p1"
      have c2: "created ?p2 = []" by (simp add: process0_def count_alloc_def)
      show ?thesis
      proof (cases "r < 0")
        case True
        with assms ps fr pk show ?thesis
          by (auto simp: decode_main_def Let_def process0_def eprint_def count_alloc_def)
      next
        case False
        note ok = this
        show ?thesis
        proof (cases "fs ?p2 (argv ! 1)")
          case None
          with assms ps fr pk ok show ?thesis
            by (auto simp: decode_main_def Let_def process0_def eprint_def count_alloc_def)
        next
          case (Some bytes)
          note inp = this
          let ?w0 = "decode_start L ?p2 c1 ps fr pk bytes"
          from assms ps fr pk ok inp obtain q where
            q: "read_loop L (argv ! 2) ?w0 = Some q"
            and rest: "(case q of
                 Exited st' w \<Rightarrow> Some (st', process.truncate w)
               | Returned w1 \<Rightarrow>
                  (case decode L None (argv ! 2) w1 of
                     None \<Rightarrow> None
                   | Some (Exited st' w) \<Rightarrow> Some (st', process.truncate w)
                   | Some (Returned w2) \<Rightarrow> Some (0, process.truncate w2))) = Some (st, p)"
            by (cases "read_loop L (argv ! 2) ?w0") (simp_all add: decode_main_def Let_def)
          have "(\<exists>w. q = Exited st w \<and> p = process.truncate w)
                \<or> (\<exists>w1 q2. q = Returned w1 \<and> decode L None (argv ! 2) w1 = Some q2
                      \<and> p = process.truncate (final q2))"
          proof (cases q)
            case (Exited st' w)
            with rest show ?thesis by simp
          next
            case (Returned w1)
            with rest obtain q2 where q2: "decode L None (argv ! 2) w1 = Some q2"
              by (cases "decode L None (argv ! 2) w1") simp_all
            with rest Returned have "p = process.truncate (final q2)"
              by (cases q2) simp_all
            with Returned q2 show ?thesis by blast
          qed
          with q c2 show ?thesis by blast
        qed
      qed
    qed
  qed
qed

lemma decode_main_named:
  assumes run: "decode_main L files argv = Some (st, p)" and len: "3 < length argv"
    and fc: "frame_counting L"
    and find: "avcodec_find_decoder_by_name L (argv ! 3) = Some codec"
    and alloc: "avcodec_alloc_context3 L codec = Some c0"
    and op: "avcodec_open2 L c0 codec = (r, c1)"
  shows "created p = map (\<lambda>k. artifact_name (argv ! 2) (frame_number L c1 + word_of_nat (Suc k)))
                       [0..<length (created p)]"
proof -
  from decode_main_reaches_loop[OF run len find alloc op]
  consider (early) "created p = []"
    | (loop_exit) p2 ps fr pk bytes w where "created p2 = []"
        "read_loop L (argv ! 2) (decode_start L p2 c1 ps fr pk bytes) = Some (Exited st w)"
        "p = process.truncate w"
    | (flushed) p2 ps fr pk bytes w1 q2 where "created p2 = []"
        "read_loop L (argv ! 2) (decode_start L p2 c1 ps fr pk bytes) = Some (Returned w1)"
        "decode L None (argv ! 2) w1 = Some q2" "p = process.truncate (final q2)"
    by blast
  thus ?thesis
  proof cases
    case early
    thus ?thesis by simp
  next
    case loop_exit
    from read_loop_named[OF loop_exit(2), of "frame_number L c1"] fc
      named_from_start[OF loop_exit(1), of L "argv ! 2" c1 ps fr pk bytes]
    have "named_from L (argv ! 2) (frame_number L c1) w" by simp
    thus ?thesis by (simp add: named_from_def loop_exit(3))
  next
    case flushed
    from read_loop_named[OF flushed(2), of "frame_number L c1"] fc
      named_from_start[OF flushed(1), of L "argv ! 2" c1 ps fr pk bytes]
    have "named_from L (argv ! 2) (frame_number L c1) w1" by simp
    from decode_named[OF flushed(3) fc this]
    show ?thesis by (simp add: named_from_def flushed(4))
  qed
qed

text \<open>As long as the 32-bit count does not pass its largest value, adding to it is
  adding to the number it stands for.\<close>

lemma sint_add_nat:
  assumes "sint (n :: 32 word) + int k < 2 ^ 31"
  shows "sint (n + word_of_nat k) = sint n + int k"
proof -
  have lo: "- (2 ^ 31) \<le> sint n" using sint_ge[of n] by simp
  have "n + word_of_nat k = word_of_int (sint n + int k)" by simp
  hence "sint (n + word_of_nat k) = signed_take_bit 31 (sint n + int k)"
    by (simp only: sint_sbintrunc') simp
  also from lo assms have "\<dots> = sint n + int k"
    by (intro signed_take_bit_int_eq_self) simp_all
  finally show ?thesis .
qed

lemma toy_frame_counting: "frame_counting toy_decoder"
  unfolding frame_counting_def
  by (auto simp: toy_decoder_def toy_send_def toy_receive_def toy_parse_def Let_def
        split: option.splits if_splits)

lemma show_int_digits: "show_int 1 = ''1''" "show_int 2 = ''2''"
  by (simp_all add: show_int_def dec_nat.simps[of 1] dec_nat.simps[of "Suc 0"]
        dec_nat.simps[of 2])

text \<open>C8, as amended. The artifacts that one call of \<^verbatim>\<open>decode\<close> creates are named, in
  order, after the engine states left by its successive frame-producing receive calls:
  each name is the first 1023 characters of the base name, \<open>-\<close> and the engine's
  \<^verbatim>\<open>frame_number\<close> in that state (printed as a signed 32-bit number), and the whole
  of that string when it is shorter than the 1024-byte buffer. In a whole run of
  \<^verbatim>\<open>video_decode\<close> with an engine that counts its frames, where \<open>c1\<close> is the codec
  context that \<^verbatim>\<open>avcodec_open2\<close> has opened, the \<open>k\<close>-th artifact of the run (over all
  calls of \<^verbatim>\<open>decode\<close>) carries the count of \<open>c1\<close> plus \<open>k\<close>; as long as that stays below
  \<open>2^31\<close> the printed indices go up by one from artifact to artifact.\<close>

theorem artifact_names_follow_engine_count:
  "(decode L p fn w = Some r \<longrightarrow>
      (\<exists>m. created (final r) = created w @
              map (\<lambda>e. artifact_name fn (frame_number L e))
                (produced_states L (snd (avcodec_send_packet L (ctx w) p)) (frame w) m)))
 \<and> (decode_main L files argv = Some (st, q) \<and> 3 < length argv \<and> frame_counting L
      \<and> avcodec_find_decoder_by_name L (argv ! 3) = Some codec
      \<and> avcodec_alloc_context3 L codec = Some c0 \<and> avcodec_open2 L c0 codec = (x, c1)
    \<longrightarrow> created q
          = map (\<lambda>k. artifact_name (argv ! 2) (frame_number L c1 + word_of_nat (Suc k)))
              [0..<length (created q)]
        \<and> (sint (frame_number L c1) + int (length (created q)) < 2 ^ 31 \<longrightarrow>
             created q
             = map (\<lambda>k. snprintf 1024
                          (argv ! 2 @ ''-'' @ show_int (sint (frame_number L c1) + 1 + int k)))
                 [0..<length (created q)]))
 \<and> (length (base @ ''-'' @ show_int (sint n)) < 1024 \<longrightarrow>
       artifact_name base n = base @ ''-'' @ show_int (sint n))"
proof (intro conjI impI)
  assume "decode L p fn w = Some r"
  thus "\<exists>m. created (final r) = created w @
              map (\<lambda>e. artifact_name fn (frame_number L e))
                (produced_states L (snd (avcodec_send_packet L (ctx w) p)) (frame w) m)"
    by (rule decode_created)
next
  assume a: "decode_main L files argv = Some (st, q) \<and> 3 < length argv \<and> frame_counting L
      \<and> avcodec_find_decoder_by_name L (argv ! 3) = Some codec
      \<and> avcodec_alloc_context3 L codec = Some c0 \<and> avcodec_open2 L c0 codec = (x, c1)"
  hence names: "created q
      = map (\<lambda>k. artifact_name (argv ! 2) (frame_number L c1 + word_of_nat (Suc k)))
          [0..<length (created q)]"
    by (elim conjE) (rule decode_main_named)
  show "created q
      = map (\<lambda>k. artifact_name (argv ! 2) (frame_number L c1 + word_of_nat (Suc k)))
          [0..<length (created q)]"
    by (rule names)
  assume small: "sint (frame_number L c1) + int (length (created q)) < 2 ^ 31"
  have "map (\<lambda>k. artifact_name (argv ! 2) (frame_number L c1 + word_of_nat (Suc k)))
          [0..<length (created q)]
      = map (\<lambda>k. snprintf 1024
                   (argv ! 2 @ ''-'' @ show_int (sint (frame_number L c1) + 1 + int k)))
          [0..<length (created q)]"
  proof (rule map_cong[OF refl])
    fix k assume "k \<in> set [0..<length (created q)]"
    with small have "sint (frame_number L c1) + int (Suc k) < 2 ^ 31" by simp
    from sint_add_nat[OF this]
    have e: "sint (frame_number L c1 + word_of_nat (Suc k)) = sint (frame_number L c1) + 1 + int k"
      by simp
    show "artifact_name (argv ! 2) (frame_number L c1 + word_of_nat (Suc k))
        = snprintf 1024 (argv ! 2 @ ''-'' @ show_int (sint (frame_number L c1) + 1 + int k))"
      by (simp only: artifact_name_def e)
  qed
  with names show "created q
      = map (\<lambda>k. snprintf 1024
                   (argv ! 2 @ ''-'' @ show_int (sint (frame_number L c1) + 1 + int k)))
          [0..<length (created q)]"
    by simp
next
  assume "length (base @ ''-'' @ show_int (sint n)) < 1024"
  thus "artifact_name base n = base @ ''-'' @ show_int (sint n)"
    by (simp add: artifact_name_def snprintf_def)
qed

theorem artifact_names_follow_engine_count_witness:
  "\<exists>q. decode_main toy_decoder [''in'' \<mapsto> [1, 2, 3, 4, 5, 6, 7]]
          [''video_decode'', ''in'', ''out'', ''toy''] = Some (0, q)
      \<and> frame_counting toy_decoder
      \<and> created q = [''out-1'', ''out-2'']"
proof -
  obtain q where run: "decode_main toy_decoder [''in'' \<mapsto> [1, 2, 3, 4, 5, 6, 7]]
          [''video_decode'', ''in'', ''out'', ''toy''] = Some (0, q)"
    and two: "length (created q) = 2"
    by (simp add: run_defs)
  have lib: "avcodec_find_decoder_by_name toy_decoder ''toy'' = Some ()"
    "avcodec_alloc_context3 toy_decoder () = Some toy_engine0"
    "avcodec_open2 toy_decoder toy_engine0 () = (0, toy_engine0)"
    "frame_number toy_decoder toy_engine0 = 0"
    by (simp_all add: toy_decoder_def toy_engine0_def)
  from artifact_names_follow_engine_count
    [where L = toy_decoder and files = "[''in'' \<mapsto> [1, 2, 3, 4, 5, 6, 7]]"
       and argv = "[''video_decode'', ''in'', ''out'', ''toy'']" and st = 0 and q = q
       and codec = "()" and ?c0.0 = toy_engine0 and x = 0 and ?c1.0 = toy_engine0]
    run toy_frame_counting lib two
  have "created q = [''out-1'', ''out-2'']"
    by (simp add: snprintf_def show_int_digits upt_conv_Cons)
  with run toy_frame_counting show ?thesis by blast
qed

text \<open>With an output base name of 1023 characters the buffer has no room for the
  separator and the count: both frames of the run are written to the file named by
  the bare base name.\<close>

theorem artifact_name_truncated:
  "map_option (created \<circ> snd)
     (decode_main toy_decoder toy_files
        [''video_decode'', ''in'', concat (replicate 510 ''./'') @ ''aaa'', ''toy''])
   = Some [concat (replicate 510 ''./'') @ ''aaa'', concat (replicate 510 ''./'') @ ''aaa'']"
  by (simp add: run_defs toy_files_def length_concat sum_list_replicate)

section \<open>Flush and final drain of video_decode.cpp\<close>







section \<open>Runs of video_encode.cpp\<close>

lemma enc_effectI:
  assumes "calls (final r) = calls w @ cs" "\<forall>c\<in>set cs. frame_call c"
    "length (filter (packet_received (AVERROR_EAGAIN L) (AVERROR_EOF L)) cs) = length pks"
    "\<forall>old. fs w out = Some old \<longrightarrow>
        fs (final r) out = Some (old @ concat (map packet_bytes pks))"
    "case r of Returned w' \<Rightarrow> err_stream w' = err_stream w
       | Exited st w' \<Rightarrow> st = 1 \<and> (\<exists>m. err_stream w' = err_stream w @ [m])"
  shows "enc_effect L out w r"
  unfolding enc_effect_def using assms by blast

lemma enc_effect_refl: "enc_effect L out w (Returned w)"
  by (rule enc_effectI[where cs = "[]" and pks = "[]"]) simp_all

lemma enc_effect_exit:
  "enc_effect L out w (Exited 1 (eprint m w))"
  by (rule enc_effectI[where cs = "[]" and pks = "[]"]) (simp_all add: eprint_def)

lemma enc_effect_trans:
  assumes "enc_effect L out w (Returned w1)" "enc_effect L out w1 r"
  shows "enc_effect L out w r"
proof -
  let ?pr = "packet_received (AVERROR_EAGAIN L) (AVERROR_EOF L)"
  from assms(1) obtain cs pks where
    a: "calls w1 = calls w @ cs" "\<forall>c\<in>set cs. frame_call c"
       "length (filter ?pr cs) = length pks"
       "\<forall>old. fs w out = Some old \<longrightarrow> fs w1 out = Some (old @ concat (map packet_bytes pks))"
       "err_stream w1 = err_stream w"
    unfolding enc_effect_def by auto
  from assms(2) obtain ds qks where
    b: "calls (final r) = calls w1 @ ds" "\<forall>c\<in>set ds. frame_call c"
       "length (filter ?pr ds) = length qks"
       "\<forall>old. fs w1 out = Some old \<longrightarrow> fs (final r) out = Some (old @ concat (map packet_bytes qks))"
    and e: "case r of Returned w' \<Rightarrow> err_stream w' = err_stream w1
              | Exited st w' \<Rightarrow> st = 1 \<and> (\<exists>m. err_stream w' = err_stream w1 @ [m])"
    unfolding enc_effect_def by auto
  have "calls (final r) = calls w @ (cs @ ds)" using a(1) b(1) by simp
  moreover have "\<forall>c\<in>set (cs @ ds). frame_call c" using a(2) b(2) by auto
  moreover have "length (filter ?pr (cs @ ds)) = length (pks @ qks)" using a(3) b(3) by simp
  moreover have "\<forall>old. fs w out = Some old \<longrightarrow>
      fs (final r) out = Some (old @ concat (map packet_bytes (pks @ qks)))"
    using a(4) b(4) by simp
  ultimately have "\<exists>cs pks. calls (final r) = calls w @ cs \<and> (\<forall>c\<in>set cs. frame_call c)
        \<and> length (filter ?pr cs) = length pks
        \<and> (\<forall>old. fs w out = Some old \<longrightarrow>
              fs (final r) out = Some (old @ concat (map packet_bytes pks)))"
    by blast
  with e a(5) show ?thesis
    unfolding enc_effect_def by (cases r) simp_all
qed

lemma enc_effect_step:
  assumes "calls w1 = calls w @ [c]" "frame_call c"
    "\<not> packet_received (AVERROR_EAGAIN L) (AVERROR_EOF L) c"
    "fs w1 = fs w" "err_stream w1 = err_stream w"
  shows "enc_effect L out w (Returned w1)"
  using assms by (intro enc_effectI[where cs = "[c]" and pks = "[]"]) simp_all

lemma enc_effect_packet:
  assumes "calls w1 = calls w @ [ReceivePacket x]"
    "0 \<le> x" "x \<noteq> AVERROR_EAGAIN L" "x \<noteq> AVERROR_EOF L"
    "fs w1 = (fs w)(out \<mapsto> (case fs w out of None \<Rightarrow> bs | Some old \<Rightarrow> old @ bs))"
    "packet_bytes pk = bs"
    "err_stream w1 = err_stream w"
  shows "enc_effect L out w (Returned w1)"
  using assms by (intro enc_effectI[where cs = "[ReceivePacket x]" and pks = "[pk]"]) simp_all

lemma encode_loop_effect:
  assumes "encode_loop L out ret w = Some r"
  shows "0 \<le> ret \<longrightarrow> enc_effect L out w r"
proof (rule encode_loop.raw_induct
    [where P = "\<lambda>L out ret w r. 0 \<le> ret \<longrightarrow> enc_effect L out w r", OF _ assms], goal_cases)
  case (1 loop L out ret w r)
  show ?case
  proof
    assume nn: "0 \<le> ret"
    obtain ret' p e where rc: "avcodec_receive_packet L (enc_ctx w) (enc_pkt w) = (ret', p, e)"
      by (cases "avcodec_receive_packet L (enc_ctx w) (enc_pkt w)") auto
    let ?w1 = "record_call (ReceivePacket ret') (w\<lparr>enc_ctx := e, enc_pkt := p\<rparr>)"
    consider (stop) "ret' = AVERROR_EAGAIN L \<or> ret' = AVERROR_EOF L"
      | (fatal) "ret' \<noteq> AVERROR_EAGAIN L" "ret' \<noteq> AVERROR_EOF L" "ret' < 0"
      | (produced) "ret' \<noteq> AVERROR_EAGAIN L" "ret' \<noteq> AVERROR_EOF L" "0 \<le> ret'"
      by linarith
    then show "enc_effect L out w r"
    proof cases
      case stop
      with 1(2) rc nn have "r = Returned ?w1"
        by (auto simp: Let_def)
      moreover from stop have "enc_effect L out w (Returned ?w1)"
        by (intro enc_effect_step[where c = "ReceivePacket ret'"]) (auto simp: record_call_def)
      ultimately show ?thesis by simp
    next
      case fatal
      with 1(2) rc nn have r: "r = Exited 1 (eprint ''Error during encoding'' ?w1)"
        by (simp add: Let_def)
      from fatal have "enc_effect L out w (Returned ?w1)"
        by (intro enc_effect_step[where c = "ReceivePacket ret'"]) (auto simp: record_call_def)
      moreover have "enc_effect L out ?w1 r"
        unfolding r by (rule enc_effect_exit)
      ultimately show ?thesis by (rule enc_effect_trans)
    next
      case produced
      let ?w2 = "oprint (''Write packet '' @ show_int (pkt_pts (enc_pkt ?w1)) @ '' (size=''
                                @ show_int_w 5 (pkt_size (enc_pkt ?w1)) @ '')'')
                   (?w1\<lparr>delivered := delivered ?w1 @ [p]\<rparr>)"
      let ?w3 = "fwrite (packet_bytes (enc_pkt ?w2)) out ?w2"
      let ?w4 = "?w3\<lparr>enc_pkt := av_packet_unref L (enc_pkt ?w3)\<rparr>"
      from 1(2) rc nn produced
      have "loop L out ret' ?w4 = Some r"
        by (simp add: Let_def)
      from 1(1)[OF this] produced have e2: "enc_effect L out ?w4 r" by simp
      have "enc_effect L out w (Returned ?w4)"
        using produced
        by (intro enc_effect_packet[where x = ret' and pk = p and bs = "packet_bytes p"])
           (simp_all add: record_call_def oprint_def fwrite_def)
      from this e2 show ?thesis by (rule enc_effect_trans)
    qed
  qed
qed

lemma encode_some_effect:
  assumes "encode L (Some fr) out w = Some r"
  shows "enc_effect L out w r"
proof -
  let ?w0 = "oprint (''Send frame '' @ show_int (pts fr)) w"
  obtain s e where sd: "avcodec_send_frame L (enc_ctx w) (Some fr) = (s, e)"
    by (cases "avcodec_send_frame L (enc_ctx w) (Some fr)") auto
  let ?w1 = "record_call (SendFrame (Some fr) s) (?w0\<lparr>enc_ctx := e\<rparr>)"
  have e1: "enc_effect L out w (Returned ?w1)"
    by (intro enc_effect_step[where c = "SendFrame (Some fr) s"])
       (simp_all add: record_call_def oprint_def)
  show ?thesis
  proof (cases "s < 0")
    case True
    with assms sd have r: "r = Exited 1 (eprint ''Error sending a frame for encoding'' ?w1)"
      by (simp add: encode_def Let_def oprint_def)
    have "enc_effect L out ?w1 r"
      unfolding r by (rule enc_effect_exit)
    with e1 show ?thesis by (rule enc_effect_trans)
  next
    case False
    with assms sd have "encode_loop L out s ?w1 = Some r"
      by (simp add: encode_def Let_def oprint_def)
    from encode_loop_effect[OF this] False have "enc_effect L out ?w1 r" by simp
    with e1 show ?thesis by (rule enc_effect_trans)
  qed
qed

lemma encode_frames_effect:
  "encode_frames L out i w = Some r \<Longrightarrow> enc_effect L out w r"
proof (induction L out i w rule: encode_frames.induct)
  case (1 L out i w)
  show ?case
  proof (cases "i < 25")
    case False
    with 1(2) show ?thesis
      by (auto simp: encode_frames.simps enc_effect_refl)
  next
    case True
    let ?fr = "(draw_dummy i (ctx_width L (enc_ctx w)) (ctx_height L (enc_ctx w))
                     (enc_frame w))\<lparr>pts := i\<rparr>"
    let ?w0 = "w\<lparr>enc_frame := ?fr\<rparr>"
    have e0: "enc_effect L out w (Returned ?w0)"
      by (rule enc_effectI[where cs = "[]" and pks = "[]"]) simp_all
    show ?thesis
    proof (cases "encode L (Some ?fr) out ?w0")
      case None
      with 1(2) True show ?thesis
        by (simp add: encode_frames.simps[of L out i w] Let_def)
    next
      case (Some q)
      note e1 = enc_effect_trans[OF e0 encode_some_effect[OF Some]]
      show ?thesis
      proof (cases q)
        case (Exited st w')
        with 1(2) True Some have "r = q"
          by (simp add: encode_frames.simps[of L out i w] Let_def)
        with e1 show ?thesis by simp
      next
        case (Returned w')
        with 1(2) True Some have "encode_frames L out (i + 1) w' = Some r"
          by (simp add: encode_frames.simps[of L out i w] Let_def)
        from 1(1)[OF True refl Some Returned this] e1 Returned show ?thesis
          by (metis enc_effect_trans)
      qed
    qed
  qed
qed

lemma encode_none_effect:
  assumes "encode L None out w = Some r"
  shows "\<exists>s cs pks. calls (final r) = calls w @ SendFrame None s # cs
      \<and> (\<forall>c\<in>set cs. frame_call c)
      \<and> length (filter (packet_received (AVERROR_EAGAIN L) (AVERROR_EOF L)) cs) = length pks
      \<and> (\<forall>old. fs w out = Some old \<longrightarrow>
            fs (final r) out = Some (old @ concat (map packet_bytes pks)))
      \<and> (case r of Returned w' \<Rightarrow> err_stream w' = err_stream w
            | Exited st w' \<Rightarrow> st = 1 \<and> (\<exists>m. err_stream w' = err_stream w @ [m]))"
proof -
  obtain s e where sd: "avcodec_send_frame L (enc_ctx w) None = (s, e)"
    by (cases "avcodec_send_frame L (enc_ctx w) None") auto
  let ?w1 = "record_call (SendFrame None s) (w\<lparr>enc_ctx := e\<rparr>)"
  have w1: "calls ?w1 = calls w @ [SendFrame None s]" "fs ?w1 = fs w"
    "err_stream ?w1 = err_stream w"
    by (simp_all add: record_call_def)
  have "enc_effect L out ?w1 r"
  proof (cases "s < 0")
    case True
    with assms sd have r: "r = Exited 1 (eprint ''Error sending a frame for encoding'' ?w1)"
      by (simp add: encode_def Let_def)
    show ?thesis unfolding r by (rule enc_effect_exit)
  next
    case False
    with assms sd have "encode_loop L out s ?w1 = Some r"
      by (simp add: encode_def Let_def)
    from encode_loop_effect[OF this] False show ?thesis by simp
  qed
  then obtain cs pks where
    "calls (final r) = calls ?w1 @ cs" "\<forall>c\<in>set cs. frame_call c"
    "length (filter (packet_received (AVERROR_EAGAIN L) (AVERROR_EOF L)) cs) = length pks"
    "\<forall>old. fs ?w1 out = Some old \<longrightarrow>
        fs (final r) out = Some (old @ concat (map packet_bytes pks))"
    "case r of Returned w' \<Rightarrow> err_stream w' = err_stream ?w1
       | Exited st w' \<Rightarrow> st = 1 \<and> (\<exists>m. err_stream w' = err_stream ?w1 @ [m])"
    unfolding enc_effect_def by blast
  then show ?thesis
    unfolding w1 by (intro exI[of _ s] exI[of _ cs] exI[of _ pks]) simp
qed

lemma encode_start_fields [simp]:
  "calls (encode_start p c fr pk) = calls p"
  "err_stream (encode_start p c fr pk) = err_stream p"
  "created (encode_start p c fr pk) = created p"
  "fs (encode_start p c fr pk) = fs p"
  by (simp_all add: encode_start_def process.defs encode_state.defs)

lemma encode_main_split:
  assumes "encode_main L files argv = Some (st, p)" "2 < length argv"
  shows "(st = 1 \<and> calls p = []
          \<and> ((err_stream p = [] \<and> av_packet_alloc L 0 = None) \<or> (\<exists>m. err_stream p = [m])))
    \<or> (\<exists>c fr pk w.
          encode_frames L (argv ! 1) 0
            (encode_start (count_alloc (count_alloc (fopen_w (argv ! 1) (process0 files))))
               c fr pk)
            = Some (Exited st w) \<and> p = process.truncate w)
    \<or> (\<exists>c fr pk w1 w2.
          encode_frames L (argv ! 1) 0
            (encode_start (count_alloc (count_alloc (fopen_w (argv ! 1) (process0 files))))
               c fr pk)
            = Some (Returned w1) \<and>
          encode L None (argv ! 1) w1 = Some (Exited st w2) \<and> p = process.truncate w2)
    \<or> (\<exists>c fr pk w1 w2.
          encode_frames L (argv ! 1) 0
            (encode_start (count_alloc (count_alloc (fopen_w (argv ! 1) (process0 files))))
               c fr pk)
            = Some (Returned w1) \<and>
          encode L None (argv ! 1) w1 = Some (Returned w2) \<and> st = 0
          \<and> p = process.truncate (fwrite endcode (argv ! 1) w2))"
  using assms
  unfolding encode_main_def Let_def
  apply (simp split: option.splits prod.splits if_splits outcome.splits)
  apply (auto simp: process0_def eprint_def count_alloc_def fopen_w_def)
  apply blast+
  done

lemma encode_main_finished:
  assumes "encode_main L files argv = Some (0, p)" "2 < length argv"
  obtains c fr pk w1 w2 where
    "encode_frames L (argv ! 1) 0
       (encode_start (count_alloc (count_alloc (fopen_w (argv ! 1) (process0 files)))) c fr pk)
       = Some (Returned w1)"
    "encode L None (argv ! 1) w1 = Some (Returned w2)"
    "p = process.truncate (fwrite endcode (argv ! 1) w2)"
proof -
  let ?w0 = "\<lambda>c fr pk. encode_start
     (count_alloc (count_alloc (fopen_w (argv ! 1) (process0 files)))) c fr pk"
  from encode_main_split[OF assms]
  consider
    (loop_exit) c fr pk w where "encode_frames L (argv ! 1) 0 (?w0 c fr pk) = Some (Exited 0 w)"
  | (flush_exit) w1 w2 where "encode L None (argv ! 1) w1 = Some (Exited 0 w2)"
  | (finished) c fr pk w1 w2 where
      "encode_frames L (argv ! 1) 0 (?w0 c fr pk) = Some (Returned w1)"
      "encode L None (argv ! 1) w1 = Some (Returned w2)"
      "p = process.truncate (fwrite endcode (argv ! 1) w2)"
    by auto
  then show ?thesis
  proof cases
    case loop_exit
    from encode_frames_effect[OF loop_exit] show ?thesis
      unfolding enc_effect_def by simp
  next
    case flush_exit
    from encode_none_effect[OF flush_exit] show ?thesis by simp
  next
    case finished
    then show ?thesis by (rule that)
  qed
qed

text \<open>The invariant \<open>written_inv\<close> through \<^verbatim>\<open>encode\<close> and the frame loop.\<close>

lemma written_inv_same:
  assumes "written_inv L out w" and "fs w' = fs w" and "delivered w' = delivered w"
    and "calls w' = calls w @ cs"
    and "\<forall>c\<in>set cs. \<not> packet_received (AVERROR_EAGAIN L) (AVERROR_EOF L) c"
  shows "written_inv L out w'"
proof -
  from assms(5)
  have "filter (packet_received (AVERROR_EAGAIN L) (AVERROR_EOF L)) cs = []"
    by (simp add: filter_empty_conv)
  with assms(1-4) show ?thesis unfolding written_inv_def by simp
qed

lemma encode_loop_written:
  assumes "encode_loop L out ret w = Some r"
  shows "written_inv L out w \<longrightarrow> written_inv L out (final r)"
proof (rule encode_loop.raw_induct
    [where P = "\<lambda>L out ret w r. written_inv L out w \<longrightarrow> written_inv L out (final r)",
     OF _ assms], goal_cases)
  case (1 loop L out ret w r)
  show ?case
  proof
    assume inv: "written_inv L out w"
    show "written_inv L out (final r)"
    proof (cases "0 \<le> ret")
      case False
      with 1(2) inv show ?thesis by auto
    next
      case nn: True
      obtain ret' p e where rc: "avcodec_receive_packet L (enc_ctx w) (enc_pkt w) = (ret', p, e)"
        by (cases "avcodec_receive_packet L (enc_ctx w) (enc_pkt w)") auto
      let ?w1 = "record_call (ReceivePacket ret') (w\<lparr>enc_ctx := e, enc_pkt := p\<rparr>)"
      show ?thesis
      proof (cases "0 \<le> ret' \<and> ret' \<noteq> AVERROR_EAGAIN L \<and> ret' \<noteq> AVERROR_EOF L")
        case False
        from inv have w1: "written_inv L out ?w1"
          by (rule written_inv_same[where cs = "[ReceivePacket ret']"])
             (use False in \<open>auto simp: record_call_def\<close>)
        from 1(2) rc nn False
        have "r = Returned ?w1 \<or> r = Exited 1 (eprint ''Error during encoding'' ?w1)"
          by (auto simp: Let_def split: if_splits)
        with w1 show ?thesis
          by (auto intro: written_inv_same[where cs = "[]"] simp: eprint_def)
      next
        case True
        let ?w2 = "oprint (''Write packet '' @ show_int (pkt_pts (enc_pkt ?w1)) @ '' (size=''
                                @ show_int_w 5 (pkt_size (enc_pkt ?w1)) @ '')'')
                   (?w1\<lparr>delivered := delivered ?w1 @ [p]\<rparr>)"
        let ?w3 = "fwrite (packet_bytes (enc_pkt ?w2)) out ?w2"
        let ?w4 = "?w3\<lparr>enc_pkt := av_packet_unref L (enc_pkt ?w3)\<rparr>"
        from 1(2) rc nn True have lp: "loop L out ret' ?w4 = Some r"
          by (simp add: Let_def)
        from inv True have "written_inv L out ?w4"
          unfolding written_inv_def
          by (simp add: record_call_def oprint_def fwrite_def)
        with 1(1)[OF lp] show ?thesis by simp
      qed
    qed
  qed
qed

lemma encode_written:
  assumes "encode L fr out w = Some r" and "written_inv L out w"
  shows "written_inv L out (final r)"
proof -
  let ?w0 = "case fr of None \<Rightarrow> w | Some f \<Rightarrow> oprint (''Send frame '' @ show_int (pts f)) w"
  obtain s e where sd: "avcodec_send_frame L (enc_ctx ?w0) fr = (s, e)"
    by (cases "avcodec_send_frame L (enc_ctx ?w0) fr") auto
  let ?w1 = "record_call (SendFrame fr s) (?w0\<lparr>enc_ctx := e\<rparr>)"
  from assms(2) have w1: "written_inv L out ?w1"
    by (rule written_inv_same[where cs = "[SendFrame fr s]"])
       (simp_all add: record_call_def oprint_def split: option.splits)
  show ?thesis
  proof (cases "s < 0")
    case True
    with assms(1) sd have "r = Exited 1 (eprint ''Error sending a frame for encoding'' ?w1)"
      by (simp add: encode_def Let_def)
    with w1 show ?thesis
      by (auto intro: written_inv_same[where cs = "[]"] simp: eprint_def)
  next
    case False
    with assms(1) sd have "encode_loop L out s ?w1 = Some r"
      by (simp add: encode_def Let_def)
    from encode_loop_written[OF this] w1 show ?thesis by simp
  qed
qed

lemma encode_frames_written:
  "encode_frames L out i w = Some r \<Longrightarrow> written_inv L out w \<Longrightarrow> written_inv L out (final r)"
proof (induction L out i w rule: encode_frames.induct)
  case (1 L out i w)
  show ?case
  proof (cases "i < 25")
    case False
    with 1(2,3) show ?thesis
      by (auto simp: encode_frames.simps)
  next
    case True
    let ?fr = "(draw_dummy i (ctx_width L (enc_ctx w)) (ctx_height L (enc_ctx w))
                     (enc_frame w))\<lparr>pts := i\<rparr>"
    let ?w0 = "w\<lparr>enc_frame := ?fr\<rparr>"
    from 1(3) have w0: "written_inv L out ?w0"
      by (rule written_inv_same[where cs = "[]"]) simp_all
    show ?thesis
    proof (cases "encode L (Some ?fr) out ?w0")
      case None
      with 1(2) True show ?thesis
        by (simp add: encode_frames.simps[of L out i w] Let_def)
    next
      case (Some q)
      note w1 = encode_written[OF Some w0]
      show ?thesis
      proof (cases q)
        case (Exited st w')
        with 1(2) True Some have "r = q"
          by (simp add: encode_frames.simps[of L out i w] Let_def)
        with w1 show ?thesis by simp
      next
        case (Returned w')
        with 1(2) True Some have "encode_frames L out (i + 1) w' = Some r"
          by (simp add: encode_frames.simps[of L out i w] Let_def)
        from 1(1)[OF True refl Some Returned this] w1 Returned show ?thesis
          by simp
      qed
    qed
  qed
qed

text \<open>C5. When \<^verbatim>\<open>video_encode\<close> ends with status 0, the output file holds exactly the
  bytes of the packets that \<^verbatim>\<open>avcodec_receive_packet\<close> delivered during the run, packet
  after packet in the order of delivery, followed by the four constant bytes
  0x00 0x00 0x01 0xB7, which are the last bytes of the file; one packet was delivered
  per producing receive call of the history.\<close>

theorem trailer_ends_output:
  assumes "encode_main L files argv = Some (0, p)"
    and "2 < length argv"
  shows "fs p (argv ! 1) = Some (concat (map packet_bytes (delivered p)) @ [0, 0, 1, 0xB7])
       \<and> length (delivered p)
          = length (filter (packet_received (AVERROR_EAGAIN L) (AVERROR_EOF L)) (calls p))"
proof -
  let ?out = "argv ! 1"
  let ?p3 = "count_alloc (count_alloc (fopen_w ?out (process0 files)))"
  from assms obtain c fr pk w1 w2 where
    loop: "encode_frames L ?out 0 (encode_start ?p3 c fr pk) = Some (Returned w1)"
    and flush: "encode L None ?out w1 = Some (Returned w2)"
    and p: "p = process.truncate (fwrite endcode ?out w2)"
    by (rule encode_main_finished)
  have "written_inv L ?out (encode_start ?p3 c fr pk)"
    unfolding written_inv_def
    by (simp add: encode_start_def process.defs encode_state.defs count_alloc_def fopen_w_def
          process0_def)
  from encode_frames_written[OF loop this] have "written_inv L ?out w1" by simp
  from encode_written[OF flush this] have "written_inv L ?out w2" by simp
  thus ?thesis
    unfolding written_inv_def by (simp add: p fwrite_def endcode_def process.defs)
qed

lemmas enc_run_defs = encode_main_def encode_start_def encode_frames.simps
  encode_def encode_loop.simps toy_defs io_defs
  process.defs encode_state.defs process0_def count_alloc_def
  argv0_def endcode_def

theorem trailer_ends_output_witness:
  "\<exists>p. encode_main toy_encoder Map.empty [''video_encode'', ''out.bin'', ''toy''] = Some (0, p)
     \<and> fs p ''out.bin'' = Some (concat (map packet_bytes (delivered p)) @ [0, 0, 1, 0xB7])
     \<and> length (delivered p) = 25
     \<and> take 6 (the (fs p ''out.bin'')) = [0, 7, 1, 7, 2, 7]
     \<and> last (the (fs p ''out.bin'')) = 0xB7"
proof -
  obtain p where run:
    "encode_main toy_encoder Map.empty [''video_encode'', ''out.bin'', ''toy''] = Some (0, p)"
    and n: "length (filter (packet_received (- 11) (- 541478725)) (calls p)) = 25"
    and first: "take 3 (delivered p)
        = [\<lparr>pkt_data = Some [0, 7], pkt_size = 2, pkt_pts = 0, stream_index = 0\<rparr>,
           \<lparr>pkt_data = Some [1, 7], pkt_size = 2, pkt_pts = 1, stream_index = 0\<rparr>,
           \<lparr>pkt_data = Some [2, 7], pkt_size = 2, pkt_pts = 2, stream_index = 0\<rparr>]"
    by (simp add: enc_run_defs)
  from trailer_ends_output[OF run] n
  have f: "fs p ''out.bin'' = Some (concat (map packet_bytes (delivered p)) @ [0, 0, 1, 0xB7])"
    and l: "length (delivered p) = 25"
    by (simp_all add: toy_encoder_def)
  from l first obtain ds where d: "delivered p
        = [\<lparr>pkt_data = Some [0, 7], pkt_size = 2, pkt_pts = 0, stream_index = 0\<rparr>,
           \<lparr>pkt_data = Some [1, 7], pkt_size = 2, pkt_pts = 1, stream_index = 0\<rparr>,
           \<lparr>pkt_data = Some [2, 7], pkt_size = 2, pkt_pts = 2, stream_index = 0\<rparr>] @ ds"
    by (metis append_take_drop_id)
  have "take 6 (the (fs p ''out.bin'')) = [0, 7, 1, 7, 2, 7]"
    by (simp add: f d packet_bytes_def)
  with run f l show ?thesis by simp
qed

section \<open>Flush and final drain of video_encode.cpp\<close>





section \<open>Properties of the hardware decoder\<close>

lemmas hw_run_defs = hw_main_def hw_start_def hw_read_loop.simps decode_write_def
  decode_write_loop.simps decode_write_body_def find_hw_config.simps list_device_types.simps
  hw_decoder_init_def unref_packet_def toy_defs io_defs process.defs hw_state.defs
  process0_def count_alloc_def argv0_def packed_size_def packed_image_def packed_plane_def
  toy_geometry_def upt_conv_Cons

lemma hw_fields [simp]:
  "hw_pix_fmt (record_call c w) = hw_pix_fmt w"
  "hw_pix_fmt (count_alloc w) = hw_pix_fmt w"
  "hw_pix_fmt (eprint m w) = hw_pix_fmt w"
  "output_file (record_call c w) = output_file w"
  "output_file (count_alloc w) = output_file w"
  "output_file (eprint m w) = output_file w"
  "packet (record_call c w) = packet w"
  "packet (count_alloc w) = packet w"
  "packet (eprint m w) = packet w"
  "decoder_ctx (record_call c w) = decoder_ctx w"
  "decoder_ctx (count_alloc w) = decoder_ctx w"
  "decoder_ctx (eprint m w) = decoder_ctx w"
  "allocs (count_alloc w) = Suc (allocs w)"
  "calls (count_alloc w) = calls w"
  "err_stream (count_alloc w) = err_stream w"
  "fs (count_alloc w) = fs w"
  "fs (record_call c w) = fs w"
  "fs (eprint m w) = fs w"
  "allocs (record_call c w) = allocs w"
  "allocs (eprint m w) = allocs w"
  by (simp_all add: record_call_def count_alloc_def eprint_def)

text \<open>C6. In one pass of the retrieval loop of \<^verbatim>\<open>decode_write\<close> that receives a frame
  \<open>fr\<close>: the device-to-host transfer is called, into the frame \<open>s0\<close> allocated in this
  pass, if and only if the format of \<open>fr\<close> is the negotiated hardware format, and then
  the transferred frame is the one that is packed; otherwise no transfer is called and
  \<open>fr\<close> itself is packed. When the transfer fails with \<open>ret1 < 0\<close>, the pass prints one
  diagnostic line, writes nothing, the retrieval loop returns \<open>ret1\<close> to its caller, and
  the packet loop of \<^verbatim>\<open>main\<close> stops on that result.\<close>

theorem transfer_iff_hardware_format:
  assumes "av_frame_alloc L (allocs w) = Some f0"
    and "av_frame_alloc L (Suc (allocs w)) = Some s0"
    and "avcodec_receive_frame L (decoder_ctx w) f0 = (ret, fr, e)"
    and "0 \<le> ret" and "ret \<noteq> AVERROR_EAGAIN L" and "ret \<noteq> AVERROR_EOF L"
    and "av_hwframe_transfer_data L s0 fr = (ret1, sw)"
    and "decode_write_body L w = (v, w')"
  shows "if format fr = hw_pix_fmt w
         then if ret1 < 0
              then v = At_fail ret1
                 \<and> calls w' = calls w @ [ReceiveFrame ret, TransferData s0 fr ret1]
                 \<and> err_stream w' = err_stream w @ [''Error transferring the data to system memory'']
                 \<and> fs w' = fs w
                 \<and> decode_write_loop L w = Some (ret1, w')
                 \<and> hw_read_loop L vs ret1 w' = Some (ret1, w')
              else (\<exists>cs. calls w' = calls w @ [ReceiveFrame ret, TransferData s0 fr ret1] @ cs
                      \<and> (cs = [] \<or> (\<exists>n. cs = [CopyToBuffer sw n])))
         else (\<exists>cs. calls w' = calls w @ [ReceiveFrame ret] @ cs
                  \<and> (cs = [] \<or> (\<exists>n. cs = [CopyToBuffer fr n])))"
proof -
  have body: "decode_write_body L w = (v, w')" by (rule assms(8))
  show ?thesis
  proof (cases "format fr = hw_pix_fmt w")
    case False
    with body assms(1-6) show ?thesis
      by (auto simp: decode_write_body_def Let_def fwrite_def record_call_def eprint_def
            count_alloc_def split: prod.splits if_splits)
  next
    case hw: True
    show ?thesis
    proof (cases "ret1 < 0")
      case True
      with hw body assms(1-7) have v: "v = At_fail ret1"
        and c: "calls w' = calls w @ [ReceiveFrame ret, TransferData s0 fr ret1]"
        and e: "err_stream w' = err_stream w @ [''Error transferring the data to system memory'']"
        and f: "fs w' = fs w"
        by (auto simp: decode_write_body_def Let_def record_call_def eprint_def count_alloc_def)
      from v body True have "decode_write_loop L w = Some (ret1, w')"
        by (simp add: decode_write_loop.simps)
      moreover from True have "hw_read_loop L vs ret1 w' = Some (ret1, w')"
        by (simp add: hw_read_loop.simps)
      ultimately show ?thesis using hw True v c e f by simp
    next
      case False
      with hw body assms(1-7) show ?thesis
        by (auto simp: decode_write_body_def Let_def fwrite_def record_call_def eprint_def
              count_alloc_def split: prod.splits if_splits)
    qed
  qed
qed

theorem transfer_iff_hardware_format_witness:
  "decode_write_loop (toy_hw\<lparr>av_hwframe_transfer_data := (\<lambda>d s. (- 5, d))\<rparr>) toy_hw_state
     = Some (- 5, toy_hw_state
         \<lparr>err_stream := [''Error transferring the data to system memory''],
          calls := [ReceiveFrame 0,
                    TransferData blank_frame ((toy_picture 0)\<lparr>format := 44\<rparr>) (- 5)],
          allocs := 2, decoder_ctx := toy_engine0\<lparr>ready := 1, produced := 1\<rparr>\<rparr>)"
  using transfer_iff_hardware_format
    [of "toy_hw\<lparr>av_hwframe_transfer_data := (\<lambda>d s. (- 5, d))\<rparr>" toy_hw_state blank_frame
        blank_frame 0 "(toy_picture 0)\<lparr>format := 44\<rparr>" "toy_engine0\<lparr>ready := 1, produced := 1\<rparr>"
        "- 5" blank_frame "At_fail (- 5)"
        "toy_hw_state
         \<lparr>err_stream := [''Error transferring the data to system memory''],
          calls := [ReceiveFrame 0,
                    TransferData blank_frame ((toy_picture 0)\<lparr>format := 44\<rparr>) (- 5)],
          allocs := 2, decoder_ctx := toy_engine0\<lparr>ready := 1, produced := 1\<rparr>\<rparr>" 1]
  by (simp add: toy_defs decode_write_body_def io_defs count_alloc_def)

subsection \<open>Packing\<close>

lemma packed_row:
  assumes "r < rows" and "row_bytes \<le> stride" and "rows * stride \<le> length plane"
  shows "length (take row_bytes (drop (r * stride) plane)) = row_bytes"
    and "c < row_bytes \<Longrightarrow> take row_bytes (drop (r * stride) plane) ! c = plane ! (r * stride + c)"
proof -
  from assms(1) have "Suc r \<le> rows" by simp
  hence "Suc r * stride \<le> rows * stride" by (rule mult_le_mono1)
  with assms(3) have le: "r * stride + stride \<le> length plane" by simp
  with assms(2) show "length (take row_bytes (drop (r * stride) plane)) = row_bytes" by simp
  assume "c < row_bytes"
  with le assms(2) show "take row_bytes (drop (r * stride) plane) ! c = plane ! (r * stride + c)"
    by simp
qed

lemma packed_plane_Suc:
  "packed_plane row_bytes (Suc n) stride plane
     = packed_plane row_bytes n stride plane @ take row_bytes (drop (n * stride) plane)"
  by (simp add: packed_plane_def)

lemma packed_plane_length:
  assumes "row_bytes \<le> stride" and "rows * stride \<le> length plane"
  shows "n \<le> rows \<Longrightarrow> length (packed_plane row_bytes n stride plane) = row_bytes * n"
proof (induction n)
  case 0
  show ?case by (simp add: packed_plane_def)
next
  case (Suc n)
  hence "n < rows" by simp
  from packed_row(1)[OF this assms] Suc show ?case by (simp add: packed_plane_Suc)
qed

lemma packed_plane_nth:
  assumes "row_bytes \<le> stride" and "rows * stride \<le> length plane" and "c < row_bytes"
  shows "n \<le> rows \<Longrightarrow> r < n
     \<Longrightarrow> packed_plane row_bytes n stride plane ! (r * row_bytes + c) = plane ! (r * stride + c)"
proof (induction n)
  case 0
  thus ?case by simp
next
  case (Suc n)
  hence n: "n < rows" "n \<le> rows" by simp_all
  have len: "length (packed_plane row_bytes n stride plane) = row_bytes * n"
    by (rule packed_plane_length[OF assms(1,2) n(2)])
  show ?case
  proof (cases "r < n")
    case True
    hence "Suc r \<le> n" by simp
    hence "Suc r * row_bytes \<le> n * row_bytes" by (rule mult_le_mono1)
    with assms(3) have "r * row_bytes + c < row_bytes * n" by (simp add: mult.commute)
    with Suc.IH[OF n(2) True] len show ?thesis by (simp add: packed_plane_Suc nth_append)
  next
    case False
    with Suc.prems have r: "r = n" by simp
    from packed_row(2)[OF n(1) assms(1,2) assms(3)] len show ?thesis
      by (simp add: r packed_plane_Suc nth_append mult.commute)
  qed
qed

lemma concat_map_upt_nth:
  assumes "pl < n" and "k < length (f pl)"
  shows "concat (map f [0..<n]) ! (length (concat (map f [0..<pl])) + k) = f pl ! k"
proof -
  from assms(1) have "[0..<n] = [0..<pl] @ pl # [Suc pl..<n]"
    using upt_add_eq_append[of 0 pl "n - pl"] by (simp add: upt_conv_Cons)
  hence "concat (map f [0..<n]) = concat (map f [0..<pl]) @ f pl @ concat (map f [Suc pl..<n])"
    by simp
  with assms(2) show ?thesis by (simp add: nth_append)
qed

lemma take_as_map: "pl \<le> length xs \<Longrightarrow> take pl xs = map ((!) xs) [0..<pl]"
proof -
  assume le: "pl \<le> length xs"
  have "take pl xs = take pl (map ((!) xs) [0..<length xs])" by (simp add: map_nth)
  also have "\<dots> = map ((!) xs) (take pl [0..<length xs])" by (rule take_map)
  also from le have "\<dots> = map ((!) xs) [0..<pl]" by simp
  finally show ?thesis .
qed

lemma packed_image_prefix:
  assumes "frame_fits geo fr" and "pl \<le> length geo"
  shows "length (concat (map (\<lambda>pl. packed_plane (fst (geo ! pl)) (snd (geo ! pl))
                                (nat (linesize fr pl)) (data fr pl)) [0..<pl]))
         = packed_size (take pl geo)"
proof -
  have "\<And>j. j < pl \<Longrightarrow> length (packed_plane (fst (geo ! j)) (snd (geo ! j))
                                (nat (linesize fr j)) (data fr j))
                          = fst (geo ! j) * snd (geo ! j)"
  proof -
    fix j assume "j < pl"
    with assms have "fst (geo ! j) \<le> nat (linesize fr j)"
      and "snd (geo ! j) * nat (linesize fr j) \<le> length (data fr j)"
      by (simp_all add: frame_fits_def)
    from packed_plane_length[OF this order_refl]
    show "length (packed_plane (fst (geo ! j)) (snd (geo ! j)) (nat (linesize fr j)) (data fr j))
          = fst (geo ! j) * snd (geo ! j)" .
  qed
  hence "map (\<lambda>j. length (packed_plane (fst (geo ! j)) (snd (geo ! j))
                                (nat (linesize fr j)) (data fr j))) [0..<pl]
         = map (\<lambda>j. fst (geo ! j) * snd (geo ! j)) [0..<pl]"
    by simp
  hence "sum_list (map (\<lambda>j. length (packed_plane (fst (geo ! j)) (snd (geo ! j))
                                (nat (linesize fr j)) (data fr j))) [0..<pl])
         = sum_list (map (\<lambda>j. fst (geo ! j) * snd (geo ! j)) [0..<pl])"
    by (rule arg_cong)
  thus ?thesis
    by (simp add: length_concat comp_def packed_size_def take_as_map[OF assms(2)]
          case_prod_unfold)
qed

lemma packed_image_length:
  "frame_fits geo fr \<Longrightarrow> length (packed_image geo (data fr) (linesize fr)) = packed_size geo"
  using packed_image_prefix[of geo fr "length geo"] by (simp add: packed_image_def)

lemma packed_image_nth:
  assumes "frame_fits geo fr" and "pl < length geo" and "r < snd (geo ! pl)"
    and "c < fst (geo ! pl)"
  shows "packed_image geo (data fr) (linesize fr) ! (packed_size (take pl geo) + r * fst (geo ! pl) + c)
         = data fr pl ! (r * nat (linesize fr pl) + c)"
proof -
  let ?f = "\<lambda>pl. packed_plane (fst (geo ! pl)) (snd (geo ! pl)) (nat (linesize fr pl)) (data fr pl)"
  from assms(1,2) have fit: "fst (geo ! pl) \<le> nat (linesize fr pl)"
      "snd (geo ! pl) * nat (linesize fr pl) \<le> length (data fr pl)"
    by (simp_all add: frame_fits_def)
  have len: "length (?f pl) = fst (geo ! pl) * snd (geo ! pl)"
    by (rule packed_plane_length[OF fit order_refl])
  from assms(3) have "Suc r \<le> snd (geo ! pl)" by simp
  hence "Suc r * fst (geo ! pl) \<le> snd (geo ! pl) * fst (geo ! pl)" by (rule mult_le_mono1)
  with assms(4) have k: "r * fst (geo ! pl) + c < length (?f pl)"
    by (simp add: len mult.commute)
  from assms(2) have le: "pl \<le> length geo" by simp
  have "packed_image geo (data fr) (linesize fr) ! (packed_size (take pl geo) + (r * fst (geo ! pl) + c))
        = ?f pl ! (r * fst (geo ! pl) + c)"
    unfolding packed_image_def packed_image_prefix[OF assms(1) le, symmetric]
    by (rule concat_map_upt_nth[where f = ?f, OF assms(2) k])
  also have "\<dots> = data fr pl ! (r * nat (linesize fr pl) + c)"
    by (rule packed_plane_nth[OF fit assms(4) order_refl assms(3)])
  finally show ?thesis by (simp add: add.assoc)
qed

text \<open>C7. In a pass of the retrieval loop of \<^verbatim>\<open>decode_write\<close> that receives a frame and
  resolves it to \<open>tmp\<close>, with a library that packs \<open>tmp\<close> as the spec says (for the
  geometry \<open>geo\<close> that its format, width and height imply): the size handed to
  the copy is the one the library computes from the format, the width and the height of
  \<open>tmp\<close> with alignment 1, which is the packed size of the geometry and mentions no
  stride; the bytes appended to the output file are the packed image, as many bytes as
  the packed size; and the byte of row \<open>r\<close>, column \<open>c\<close> of plane \<open>pl\<close> is read at
  \<open>r * stride + c\<close> in the plane and lands at \<open>r * row_bytes + c\<close> after the planes before
  it, so no padding is left between the rows.\<close>

theorem packed_output_is_tight:
  assumes "image_lib_conforms L geo tmp"
    and "av_frame_alloc L (allocs w) = Some f0"
    and "av_frame_alloc L (Suc (allocs w)) = Some s0"
    and "avcodec_receive_frame L (decoder_ctx w) f0 = (ret, fr, e)"
    and "0 \<le> ret" and "ret \<noteq> AVERROR_EAGAIN L" and "ret \<noteq> AVERROR_EOF L"
    and "resolved L (hw_pix_fmt w) s0 fr tmp"
    and "frame_fits geo tmp"
    and "packed_size geo < 2 ^ 64"
    and "av_malloc L (allocs w + 2) (packed_size geo)"
    and "fs w (output_file w) = Some old"
    and "decode_write_body L w = (v, w')"
  shows "last (calls w')
           = CopyToBuffer tmp (av_image_get_buffer_size L (format tmp) (width tmp) (height tmp) 1)
       \<and> av_image_get_buffer_size L (format tmp) (width tmp) (height tmp) 1 = int (packed_size geo)
       \<and> fs w' (output_file w) = Some (old @ packed_image geo (data tmp) (linesize tmp))
       \<and> length (packed_image geo (data tmp) (linesize tmp)) = packed_size geo
       \<and> (\<forall>pl\<in>{0..<length geo}. \<forall>r\<in>{0..<snd (geo ! pl)}. \<forall>c\<in>{0..<fst (geo ! pl)}.
             packed_image geo (data tmp) (linesize tmp)
               ! (packed_size (take pl geo) + r * fst (geo ! pl) + c)
             = data tmp pl ! (r * nat (linesize tmp pl) + c))"
proof -
  let ?n = "packed_size geo"
  from assms(1) have size: "av_image_get_buffer_size L (format tmp) (width tmp) (height tmp) 1 = int ?n"
    by (simp add: image_lib_conforms_def)
  from assms(1) have copy: "av_image_copy_to_buffer L (int ?n) (data tmp) (linesize tmp)
       (format tmp) (width tmp) (height tmp) 1 = (int ?n, packed_image geo (data tmp) (linesize tmp))"
    by (simp add: image_lib_conforms_def)
  have len: "length (packed_image geo (data tmp) (linesize tmp)) = ?n"
    by (rule packed_image_length[OF assms(9)])
  from assms(10) have un: "unat (word_of_int (int ?n) :: 64 word) = ?n"
    by (simp add: unat_of_nat)
  from assms(11) have malloc: "av_malloc L (Suc (Suc (allocs w))) ?n" by simp
  have body: "decode_write_body L w = (v, w')" by (rule assms(13))
  have "last (calls w') = CopyToBuffer tmp (int ?n)
      \<and> fs w' (output_file w) = Some (old @ packed_image geo (data tmp) (linesize tmp))"
  proof (cases "format fr = hw_pix_fmt w")
    case True
    with assms(8) obtain x where tr: "av_hwframe_transfer_data L s0 fr = (x, tmp)" and x: "0 \<le> x"
      by (cases "av_hwframe_transfer_data L s0 fr") (simp add: resolved_def)
    from body True tr x assms(2-7,12) size copy len un malloc show ?thesis
      by (auto simp: decode_write_body_def Let_def fwrite_def record_call_def count_alloc_def)
  next
    case False
    with assms(8) have tmp: "tmp = fr" by (simp add: resolved_def)
    from body False assms(2-7,12) size copy len un malloc show ?thesis
      unfolding tmp
      by (auto simp: decode_write_body_def Let_def fwrite_def record_call_def count_alloc_def)
  qed
  moreover have "\<forall>pl\<in>{0..<length geo}. \<forall>r\<in>{0..<snd (geo ! pl)}. \<forall>c\<in>{0..<fst (geo ! pl)}.
             packed_image geo (data tmp) (linesize tmp)
               ! (packed_size (take pl geo) + r * fst (geo ! pl) + c)
             = data tmp pl ! (r * nat (linesize tmp pl) + c)"
    using packed_image_nth[OF assms(9)] by simp
  ultimately show ?thesis using size len by simp
qed

theorem packed_output_is_tight_witness:
  "fs (snd (decode_write_body toy_hw toy_hw_state)) ''out.raw'' = Some [1, 2, 3, 4]"
  using packed_output_is_tight
    [of toy_hw "[(2, 2)]" "(toy_picture 0)\<lparr>format := 8\<rparr>" toy_hw_state blank_frame blank_frame 0
        "(toy_picture 0)\<lparr>format := 44\<rparr>" "toy_engine0\<lparr>ready := 1, produced := 1\<rparr>" "[]"
        "fst (decode_write_body toy_hw toy_hw_state)"
        "snd (decode_write_body toy_hw toy_hw_state)"]
  by (simp add: toy_defs image_lib_conforms_def resolved_def frame_fits_def toy_geometry_def
        packed_size_def packed_image_def packed_plane_def upt_conv_Cons)

subsection \<open>The retrieval loop\<close>

lemma projections_append [simp]:
  "submitted (cs @ ds) = submitted cs @ submitted ds"
  "packets_read (cs @ ds) = packets_read cs @ packets_read ds"
  "released (cs @ ds) = released cs @ released ds"
  "submitted [] = []" "packets_read [] = []" "released [] = []"
  "submitted (c # cs) = sent1 c @ submitted cs"
  "packets_read (c # cs) = read1 c @ packets_read cs"
  "released (c # cs) = unref1 c @ released cs"
  by (simp_all add: submitted_def packets_read_def released_def)

lemma frame_events_project:
  assumes "\<forall>c\<in>set cs. frame_event c"
  shows "submitted cs = []" and "packets_read cs = []" and "released cs = []"
    and "\<forall>c\<in>set cs. \<not> payload_free_sent c"
proof -
  have a: "\<And>c. frame_event c \<Longrightarrow> sent1 c = [] \<and> read1 c = [] \<and> unref1 c = [] \<and> \<not> payload_free_sent c"
    by (case_tac c rule: frame_event.cases) simp_all
  from assms a show "submitted cs = []" by (induction cs) simp_all
  from assms a show "packets_read cs = []" by (induction cs) simp_all
  from assms a show "released cs = []" by (induction cs) simp_all
  from assms a show "\<forall>c\<in>set cs. \<not> payload_free_sent c" by blast
qed

lemma drainingD:
  assumes "draining_decoder L fl D" and "D e" and "avcodec_receive_frame L e fr = (r, f, e')"
  shows "r \<noteq> AVERROR_EAGAIN L" and "D e'"
  using assms unfolding draining_decoder_def by blast+

text \<open>One pass: what it adds to the history and to the error stream.\<close>

lemma body_keeps:
  assumes "decode_write_body L w = (v, w')"
  shows "packet w' = packet w"
    and "\<exists>cs ms. calls w' = calls w @ cs \<and> err_stream w' = err_stream w @ ms
           \<and> (\<forall>c\<in>set cs. frame_event c)"
  using assms
  by (auto simp: decode_write_body_def Let_def fwrite_def record_call_def eprint_def
        count_alloc_def split: prod.splits if_splits option.splits sum.splits)

lemma body_return:
  assumes "decode_write_body L w = (Return r, w')"
  shows "r = 0 \<and> err_stream w' = err_stream w
       \<and> (\<exists>x. calls w' = calls w @ [ReceiveFrame x]
             \<and> (x = AVERROR_EAGAIN L \<or> x = AVERROR_EOF L)
             \<and> (draining_decoder L fl D \<and> D (decoder_ctx w) \<longrightarrow> x = AVERROR_EOF L))"
  using assms
  by (auto simp: decode_write_body_def Let_def fwrite_def record_call_def eprint_def
        count_alloc_def dest: drainingD
        split: prod.splits if_splits option.splits sum.splits)

lemma body_fail:
  assumes "decode_write_body L w = (At_fail r, w')"
  shows "r < 0 \<longrightarrow> err_stream w' \<noteq> err_stream w"
    and "err_stream w' = err_stream w \<longrightarrow>
          (\<exists>x ds. calls w' = calls w @ ReceiveFrame x # ds
              \<and> 0 \<le> x \<and> x \<noteq> AVERROR_EAGAIN L \<and> x \<noteq> AVERROR_EOF L
              \<and> (\<forall>c\<in>set ds. \<not> engine_call c))"
    and "draining_decoder L fl D \<and> D (decoder_ctx w) \<longrightarrow> D (decoder_ctx w')"
  using assms
  by (auto simp: decode_write_body_def Let_def fwrite_def record_call_def eprint_def
        count_alloc_def dest: drainingD
        split: prod.splits if_splits option.splits sum.splits)

lemma filter_no_engine: "\<forall>c\<in>set ds. \<not> engine_call c \<Longrightarrow> filter engine_call ds = []"
  by (induction ds) simp_all

lemma retrieval_effectI:
  assumes "packet w' = packet w" and "r \<le> 0"
    and "calls w' = calls w @ cs" and "err_stream w' = err_stream w @ ms"
    and "\<forall>c\<in>set cs. frame_event c" and "r < 0 \<longrightarrow> ms \<noteq> []"
    and "ms = [] \<longrightarrow>
             (\<exists>rs x. filter engine_call cs = map ReceiveFrame rs @ [ReceiveFrame x]
                \<and> (\<forall>y\<in>set rs. 0 \<le> y \<and> y \<noteq> AVERROR_EAGAIN L \<and> y \<noteq> AVERROR_EOF L)
                \<and> (x = AVERROR_EAGAIN L \<or> x = AVERROR_EOF L)
                \<and> (draining_decoder L fl D \<and> D (decoder_ctx w) \<longrightarrow> x = AVERROR_EOF L))"
  shows "retrieval_effect L fl D w r w'"
  unfolding retrieval_effect_def
  apply (intro conjI)
    apply (rule assms(1))
   apply (rule assms(2))
  apply (rule exI[of _ cs], rule exI[of _ ms])
  apply (intro conjI assms)
  done

lemma retrieval_effectE:
  assumes "retrieval_effect L fl D w r w'"
  obtains cs ms where "packet w' = packet w" and "r \<le> 0"
    and "calls w' = calls w @ cs" and "err_stream w' = err_stream w @ ms"
    and "\<forall>c\<in>set cs. frame_event c" and "r < 0 \<longrightarrow> ms \<noteq> []"
    and "ms = [] \<longrightarrow>
             (\<exists>rs x. filter engine_call cs = map ReceiveFrame rs @ [ReceiveFrame x]
                \<and> (\<forall>y\<in>set rs. 0 \<le> y \<and> y \<noteq> AVERROR_EAGAIN L \<and> y \<noteq> AVERROR_EOF L)
                \<and> (x = AVERROR_EAGAIN L \<or> x = AVERROR_EOF L)
                \<and> (draining_decoder L fl D \<and> D (decoder_ctx w) \<longrightarrow> x = AVERROR_EOF L))"
  using assms unfolding retrieval_effect_def
  apply -
  apply (elim conjE exE)
  apply (rule that; assumption)
  done

lemma retrieval_return:
  assumes "decode_write_body L w = (Return r, w')"
  shows "retrieval_effect L fl D w r w'"
proof -
  from body_return[OF assms, of fl D] obtain x where
    r: "r = 0" and e: "err_stream w' = err_stream w"
    and c: "calls w' = calls w @ [ReceiveFrame x]"
    and x: "x = AVERROR_EAGAIN L \<or> x = AVERROR_EOF L"
    and d: "draining_decoder L fl D \<and> D (decoder_ctx w) \<longrightarrow> x = AVERROR_EOF L"
    by blast
  have "filter engine_call [ReceiveFrame x] = map ReceiveFrame [] @ [ReceiveFrame x]" by simp
  with x d have "\<exists>rs y. filter engine_call [ReceiveFrame x] = map ReceiveFrame rs @ [ReceiveFrame y]
      \<and> (\<forall>y\<in>set rs. 0 \<le> y \<and> y \<noteq> AVERROR_EAGAIN L \<and> y \<noteq> AVERROR_EOF L)
      \<and> (y = AVERROR_EAGAIN L \<or> y = AVERROR_EOF L)
      \<and> (draining_decoder L fl D \<and> D (decoder_ctx w) \<longrightarrow> y = AVERROR_EOF L)"
    by (intro exI[of _ "[]"] exI[of _ x]) simp
  with r e c body_keeps(1)[OF assms] show ?thesis
    by (intro retrieval_effectI[where cs = "[ReceiveFrame x]" and ms = "[]"]) simp_all
qed

lemma retrieval_fail:
  assumes "decode_write_body L w = (At_fail r, w')" and "r < 0"
  shows "retrieval_effect L fl D w r w'"
proof -
  from body_keeps(2)[OF assms(1)] obtain cs ms where
    c: "calls w' = calls w @ cs" and e: "err_stream w' = err_stream w @ ms"
    and f: "\<forall>c\<in>set cs. frame_event c" by blast
  from body_fail(1)[OF assms(1)] assms(2) e have "ms \<noteq> []" by auto
  with c e f assms(2) body_keeps(1)[OF assms(1)] show ?thesis
    by (intro retrieval_effectI[where cs = cs and ms = ms]) simp_all
qed

lemma retrieval_step:
  assumes body: "decode_write_body L w = (At_fail r0, w1)" and r0: "0 \<le> r0"
    and rest: "retrieval_effect L fl D w1 r w'"
  shows "retrieval_effect L fl D w r w'"
proof -
  from body_keeps(2)[OF body] obtain cs1 ms1 where
    c1: "calls w1 = calls w @ cs1" and e1: "err_stream w1 = err_stream w @ ms1"
    and f1: "\<forall>c\<in>set cs1. frame_event c" by blast
  from rest obtain cs2 ms2 where
    pk: "packet w' = packet w1" and r: "r \<le> 0"
    and c2: "calls w' = calls w1 @ cs2" and e2: "err_stream w' = err_stream w1 @ ms2"
    and f2: "\<forall>c\<in>set cs2. frame_event c"
    and neg: "r < 0 \<longrightarrow> ms2 \<noteq> []"
    and quiet: "ms2 = [] \<longrightarrow>
             (\<exists>rs x. filter engine_call cs2 = map ReceiveFrame rs @ [ReceiveFrame x]
                \<and> (\<forall>y\<in>set rs. 0 \<le> y \<and> y \<noteq> AVERROR_EAGAIN L \<and> y \<noteq> AVERROR_EOF L)
                \<and> (x = AVERROR_EAGAIN L \<or> x = AVERROR_EOF L)
                \<and> (draining_decoder L fl D \<and> D (decoder_ctx w1) \<longrightarrow> x = AVERROR_EOF L))"
    by (rule retrieval_effectE)
  have q: "ms1 @ ms2 = [] \<longrightarrow>
             (\<exists>rs x. filter engine_call (cs1 @ cs2) = map ReceiveFrame rs @ [ReceiveFrame x]
                \<and> (\<forall>y\<in>set rs. 0 \<le> y \<and> y \<noteq> AVERROR_EAGAIN L \<and> y \<noteq> AVERROR_EOF L)
                \<and> (x = AVERROR_EAGAIN L \<or> x = AVERROR_EOF L)
                \<and> (draining_decoder L fl D \<and> D (decoder_ctx w) \<longrightarrow> x = AVERROR_EOF L))"
  proof
    assume "ms1 @ ms2 = []"
    hence m1: "ms1 = []" and m2: "ms2 = []" by simp_all
    from body_fail(2)[OF body] e1 m1 c1 obtain x0 ds where
      cs1: "cs1 = ReceiveFrame x0 # ds"
      and x0: "0 \<le> x0" "x0 \<noteq> AVERROR_EAGAIN L" "x0 \<noteq> AVERROR_EOF L"
      and ds: "\<forall>c\<in>set ds. \<not> engine_call c" by auto
    from quiet m2 obtain rs x where
      g: "filter engine_call cs2 = map ReceiveFrame rs @ [ReceiveFrame x]"
      and rs: "\<forall>y\<in>set rs. 0 \<le> y \<and> y \<noteq> AVERROR_EAGAIN L \<and> y \<noteq> AVERROR_EOF L"
      and x: "x = AVERROR_EAGAIN L \<or> x = AVERROR_EOF L"
      and d: "draining_decoder L fl D \<and> D (decoder_ctx w1) \<longrightarrow> x = AVERROR_EOF L" by blast
    have "filter engine_call (cs1 @ cs2) = map ReceiveFrame (x0 # rs) @ [ReceiveFrame x]"
      by (simp add: cs1 g filter_no_engine[OF ds])
    moreover from x0 rs
    have "\<forall>y\<in>set (x0 # rs). 0 \<le> y \<and> y \<noteq> AVERROR_EAGAIN L \<and> y \<noteq> AVERROR_EOF L" by simp
    moreover from d body_fail(3)[OF body, of fl D]
    have "draining_decoder L fl D \<and> D (decoder_ctx w) \<longrightarrow> x = AVERROR_EOF L" by blast
    ultimately show "\<exists>rs x. filter engine_call (cs1 @ cs2) = map ReceiveFrame rs @ [ReceiveFrame x]
                \<and> (\<forall>y\<in>set rs. 0 \<le> y \<and> y \<noteq> AVERROR_EAGAIN L \<and> y \<noteq> AVERROR_EOF L)
                \<and> (x = AVERROR_EAGAIN L \<or> x = AVERROR_EOF L)
                \<and> (draining_decoder L fl D \<and> D (decoder_ctx w) \<longrightarrow> x = AVERROR_EOF L)"
      using x by blast
  qed
  from neg have n: "r < 0 \<longrightarrow> ms1 @ ms2 \<noteq> []" by simp
  from f1 f2 have f: "\<forall>c\<in>set (cs1 @ cs2). frame_event c" by auto
  from pk body_keeps(1)[OF body] have p: "packet w' = packet w" by simp
  have c: "calls w' = calls w @ (cs1 @ cs2)" by (simp add: c1 c2)
  have e: "err_stream w' = err_stream w @ (ms1 @ ms2)" by (simp add: e1 e2)
  from p r c e f n q show ?thesis
    by (rule retrieval_effectI)
qed

lemma decode_write_loop_effect:
  assumes "decode_write_loop L w = Some rw"
  shows "retrieval_effect L fl D w (fst rw) (snd rw)"
proof (rule decode_write_loop.raw_induct
    [where P = "\<lambda>L w rw. retrieval_effect L fl D w (fst rw) (snd rw)", OF _ assms], goal_cases)
  case (1 loop L w rw)
  obtain v w1 where body: "decode_write_body L w = (v, w1)" by (cases "decode_write_body L w")
  show ?case
  proof (cases v)
    case (Return r)
    with 1(2) body have "rw = (r, w1)" by simp
    with retrieval_return[OF body[unfolded Return]] show ?thesis by simp
  next
    case (At_fail r0)
    show ?thesis
    proof (cases "r0 < 0")
      case True
      with 1(2) body At_fail have "rw = (r0, w1)" by simp
      with retrieval_fail[OF body[unfolded At_fail] True] show ?thesis by simp
    next
      case False
      with 1(2) body At_fail have "loop L w1 = Some rw" by simp
      from 1(1)[OF this] have rest: "retrieval_effect L fl D w1 (fst rw) (snd rw)" .
      from False have "0 \<le> r0" by simp
      from body[unfolded At_fail] this rest show ?thesis by (rule retrieval_step)
    qed
  qed
qed

subsection \<open>A submission and the packet loop\<close>

lemma decode_write_effect:
  assumes "decode_write L pk w = Some (r, w')"
  obtains s cs ms where "packet w' = packet w" and "r \<le> 0"
    and "calls w' = calls w @ SendPacket (Some pk) s # cs"
    and "err_stream w' = err_stream w @ ms"
    and "\<forall>c\<in>set cs. frame_event c" and "r < 0 \<longrightarrow> ms \<noteq> []"
    and "ms = [] \<longrightarrow> 0 \<le> s \<and>
             (\<exists>rs x. filter engine_call cs = map ReceiveFrame rs @ [ReceiveFrame x]
                \<and> (\<forall>y\<in>set rs. 0 \<le> y \<and> y \<noteq> AVERROR_EAGAIN L \<and> y \<noteq> AVERROR_EOF L)
                \<and> (x = AVERROR_EAGAIN L \<or> x = AVERROR_EOF L)
                \<and> (draining_decoder L fl D \<and> fl (Some pk) \<longrightarrow> x = AVERROR_EOF L))"
proof -
  obtain s e where sd: "avcodec_send_packet L (decoder_ctx w) (Some pk) = (s, e)"
    by (cases "avcodec_send_packet L (decoder_ctx w) (Some pk)")
  let ?w1 = "record_call (SendPacket (Some pk) s) (w\<lparr>decoder_ctx := e\<rparr>)"
  show thesis
  proof (cases "s < 0")
    case True
    with assms sd have r: "r = s" and w': "w' = eprint ''Error during decoding'' ?w1"
      by (auto simp: decode_write_def)
    show thesis
    proof (rule that[where s = s and cs = "[]" and ms = "[''Error during decoding'']"])
      show "packet w' = packet w" by (simp add: w' record_call_def eprint_def)
      show "r \<le> 0" using r True by simp
      show "calls w' = calls w @ [SendPacket (Some pk) s]"
        by (simp add: w' record_call_def eprint_def)
      show "err_stream w' = err_stream w @ [''Error during decoding'']"
        by (simp add: w' record_call_def eprint_def)
    qed simp_all
  next
    case False
    with assms sd have "decode_write_loop L ?w1 = Some (r, w')"
      by (simp add: decode_write_def)
    from decode_write_loop_effect[OF this, of fl D]
    have "retrieval_effect L fl D ?w1 r w'" by simp
    then obtain cs ms where a: "packet w' = packet ?w1" "r \<le> 0"
      "calls w' = calls ?w1 @ cs" "err_stream w' = err_stream ?w1 @ ms"
      "\<forall>c\<in>set cs. frame_event c" "r < 0 \<longrightarrow> ms \<noteq> []"
      and q: "ms = [] \<longrightarrow>
             (\<exists>rs x. filter engine_call cs = map ReceiveFrame rs @ [ReceiveFrame x]
                \<and> (\<forall>y\<in>set rs. 0 \<le> y \<and> y \<noteq> AVERROR_EAGAIN L \<and> y \<noteq> AVERROR_EOF L)
                \<and> (x = AVERROR_EAGAIN L \<or> x = AVERROR_EOF L)
                \<and> (draining_decoder L fl D \<and> D (decoder_ctx ?w1) \<longrightarrow> x = AVERROR_EOF L))"
      by (rule retrieval_effectE)
    have "draining_decoder L fl D \<and> fl (Some pk) \<longrightarrow> D e"
    proof
      assume "draining_decoder L fl D \<and> fl (Some pk)"
      moreover from False have "0 \<le> s" by simp
      ultimately show "D e" using sd unfolding draining_decoder_def by blast
    qed
    hence d: "draining_decoder L fl D \<and> fl (Some pk) \<longrightarrow> D (decoder_ctx ?w1)"
      by (simp add: record_call_def)
    show thesis
    proof (rule that[where s = s and cs = cs and ms = ms])
      show "packet w' = packet w" using a(1) by (simp add: record_call_def)
      show "calls w' = calls w @ SendPacket (Some pk) s # cs"
        using a(3) by (simp add: record_call_def)
      show "err_stream w' = err_stream w @ ms" using a(4) by (simp add: record_call_def)
      show "ms = [] \<longrightarrow> 0 \<le> s \<and>
             (\<exists>rs x. filter engine_call cs = map ReceiveFrame rs @ [ReceiveFrame x]
                \<and> (\<forall>y\<in>set rs. 0 \<le> y \<and> y \<noteq> AVERROR_EAGAIN L \<and> y \<noteq> AVERROR_EOF L)
                \<and> (x = AVERROR_EAGAIN L \<or> x = AVERROR_EOF L)
                \<and> (draining_decoder L fl D \<and> fl (Some pk) \<longrightarrow> x = AVERROR_EOF L))"
      proof
        assume "ms = []"
        with q obtain rs x where
          "filter engine_call cs = map ReceiveFrame rs @ [ReceiveFrame x]"
          "\<forall>y\<in>set rs. 0 \<le> y \<and> y \<noteq> AVERROR_EAGAIN L \<and> y \<noteq> AVERROR_EOF L"
          "x = AVERROR_EAGAIN L \<or> x = AVERROR_EOF L"
          "draining_decoder L fl D \<and> D (decoder_ctx ?w1) \<longrightarrow> x = AVERROR_EOF L"
          by blast
        with d False show "0 \<le> s \<and>
             (\<exists>rs x. filter engine_call cs = map ReceiveFrame rs @ [ReceiveFrame x]
                \<and> (\<forall>y\<in>set rs. 0 \<le> y \<and> y \<noteq> AVERROR_EAGAIN L \<and> y \<noteq> AVERROR_EOF L)
                \<and> (x = AVERROR_EAGAIN L \<or> x = AVERROR_EOF L)
                \<and> (draining_decoder L fl D \<and> fl (Some pk) \<longrightarrow> x = AVERROR_EOF L))"
          by (intro conjI exI[of _ rs] exI[of _ x]) auto
      qed
    qed (rule a)+
  qed
qed

text \<open>What the packet loop of \<^verbatim>\<open>main\<close> has done when it started in \<open>w\<close> and ended in
  \<open>w'\<close>.\<close>

lemma hw_read_loop_effect:
  assumes "hw_read_loop L vs ret w = Some rw"
  shows "\<exists>cs ms. calls (snd rw) = calls w @ cs \<and> err_stream (snd rw) = err_stream w @ ms
      \<and> submitted cs = filter (\<lambda>q. stream_index q = vs) (packets_read cs)
      \<and> released cs = packets_read cs
      \<and> (demuxer_payload L \<longrightarrow> (\<forall>c\<in>set cs. \<not> payload_free_sent c))"
proof (rule hw_read_loop.raw_induct
    [where P = "\<lambda>L vs ret w rw. \<exists>cs ms. calls (snd rw) = calls w @ cs
      \<and> err_stream (snd rw) = err_stream w @ ms
      \<and> submitted cs = filter (\<lambda>q. stream_index q = vs) (packets_read cs)
      \<and> released cs = packets_read cs
      \<and> (demuxer_payload L \<longrightarrow> (\<forall>c\<in>set cs. \<not> payload_free_sent c))", OF _ assms],
    goal_cases)
  case (1 loop L vs ret w rw)
  show ?case
  proof (cases "0 \<le> ret")
    case False
    with 1(2) have "rw = (ret, w)" by simp
    thus ?thesis by (intro exI[of _ "[]"]) simp
  next
    case True
    obtain r pk ic where rd: "av_read_frame L (input_ctx w) (packet w) = (r, pk, ic)"
      by (cases "av_read_frame L (input_ctx w) (packet w)")
    let ?w1 = "record_call (ReadFrame r pk) (w\<lparr>input_ctx := ic, packet := pk\<rparr>)"
    have w1: "calls ?w1 = calls w @ [ReadFrame r pk]" "err_stream ?w1 = err_stream w"
      "packet ?w1 = pk"
      by (simp_all add: record_call_def)
    show ?thesis
    proof (cases "r < 0")
      case neg: True
      with 1(2) True rd have "rw = (r, ?w1)" by (simp add: Let_def)
      with w1 neg show ?thesis
        by (intro exI[of _ "[ReadFrame r pk]"] exI[of _ "[]"]) simp
    next
      case nonneg: False
      have pay: "demuxer_payload L \<longrightarrow> \<not> no_payload (Some pk)"
        using rd nonneg unfolding demuxer_payload_def by (metis not_le_imp_less)
      show ?thesis
      proof (cases "vs = stream_index pk")
        case other: False
        with 1(2) True rd nonneg have "loop L vs r (unref_packet L ?w1) = Some rw"
          by (simp add: Let_def record_call_def)
        from 1(1)[OF this] obtain cs ms where
          c: "calls (snd rw) = calls (unref_packet L ?w1) @ cs"
          and e: "err_stream (snd rw) = err_stream (unref_packet L ?w1) @ ms"
          and s: "submitted cs = filter (\<lambda>q. stream_index q = vs) (packets_read cs)"
          and u: "released cs = packets_read cs"
          and p: "demuxer_payload L \<longrightarrow> (\<forall>c\<in>set cs. \<not> payload_free_sent c)" by blast
        from c e s u p other nonneg show ?thesis
          by (intro exI[of _ "[ReadFrame r pk, Unref pk] @ cs"] exI[of _ ms])
             (auto simp: unref_packet_def record_call_def)
      next
        case same: True
        with 1(2) True rd nonneg obtain r' w2 where
          dw: "decode_write L pk ?w1 = Some (r', w2)"
          and lp: "loop L vs r' (unref_packet L w2) = Some rw"
          by (auto simp: Let_def record_call_def split: option.splits)
        from dw obtain s ds ns where
          d: "packet w2 = packet ?w1" "calls w2 = calls ?w1 @ SendPacket (Some pk) s # ds"
             "err_stream w2 = err_stream ?w1 @ ns" "\<forall>c\<in>set ds. frame_event c"
          by (rule decode_write_effect)
        from 1(1)[OF lp] obtain cs ms where
          c: "calls (snd rw) = calls (unref_packet L w2) @ cs"
          and e: "err_stream (snd rw) = err_stream (unref_packet L w2) @ ms"
          and s: "submitted cs = filter (\<lambda>q. stream_index q = vs) (packets_read cs)"
          and u: "released cs = packets_read cs"
          and p: "demuxer_payload L \<longrightarrow> (\<forall>c\<in>set cs. \<not> payload_free_sent c)" by blast
        note fe = frame_events_project[OF d(4)]
        from c e s u p d(1-3) w1 same nonneg pay fe show ?thesis
          by (intro exI[of _ "[ReadFrame r pk] @ SendPacket (Some pk) s # ds @ [Unref pk] @ cs"]
                exI[of _ "ns @ ms"])
             (auto simp: unref_packet_def record_call_def)
      qed
    qed
  qed
qed

text \<open>The listing of the device types only prints.\<close>

lemma list_device_types_prints:
  assumes "list_device_types L t p = Some p'"
  shows "calls p' = calls p \<and> created p' = created p
       \<and> (\<exists>ms. err_stream p' = err_stream p @ ms)"
proof (rule list_device_types.raw_induct
    [where P = "\<lambda>L t p p'. calls p' = calls p \<and> created p' = created p
       \<and> (\<exists>ms. err_stream p' = err_stream p @ ms)", OF _ assms], goal_cases)
  case (1 loop L t p p')
  show ?case
  proof (cases "av_hwdevice_iterate_types L t")
    case None
    with 1(2) show ?thesis by simp
  next
    case (Some t')
    with 1(2) have "loop L (Some t') (eprint ('' '' @ av_hwdevice_get_type_name L t') p) = Some p'"
      by simp
    from 1(1)[OF this] show ?thesis by (auto simp: eprint_def)
  qed
qed

subsection \<open>Runs of video_hw_decode.cpp\<close>

lemma hw_start_fields [simp]:
  "calls (hw_start p c ic pk fmt name) = calls p"
  "err_stream (hw_start p c ic pk fmt name) = err_stream p"
  "created (hw_start p c ic pk fmt name) = created p"
  "fs (hw_start p c ic pk fmt name) = fs p"
  "packet (hw_start p c ic pk fmt name) = pk"
  "decoder_ctx (hw_start p c ic pk fmt name) = c"
  "hw_pix_fmt (hw_start p c ic pk fmt name) = fmt"
  "output_file (hw_start p c ic pk fmt name) = name"
  by (simp_all add: hw_start_def process.defs hw_state.defs)

lemma hw_truncate_fields [simp]:
  "calls (process.truncate (w :: ('e, 'ic) hw_state)) = calls w"
  "err_stream (process.truncate w) = err_stream w"
  "created (process.truncate w) = created w"
  "fs (process.truncate w) = fs w"
  by (simp_all add: process.defs)

lemma hw_decoder_init_effect:
  assumes "hw_decoder_init L c type p = (r, c', p')"
  shows "calls p' = calls p \<and> created p' = created p
       \<and> (if r < 0 then err_stream p' = err_stream p @ [''Failed to create specified HW device.'']
           else err_stream p' = err_stream p)"
  using assms by (auto simp: hw_decoder_init_def eprint_def split: prod.splits if_splits)

lemma hw_main_usage:
  assumes "hw_main L files argv = Some (st, p)" and "length argv < 4"
  shows "st = - 1 \<and> calls p = [] \<and> created p = []
       \<and> err_stream p = [''Usage: '' @ argv0 argv @ '' <device type> <input file> <output file>'']"
  using assms by (auto simp: hw_main_def process0_def eprint_def)

lemma hw_main_cases:
  assumes "hw_main L files argv = Some (st, p)" and "4 \<le> length argv"
  shows "(st = - 1 \<and> created p = [] \<and> (calls p = [] \<or> (\<exists>vs. calls p = [FindBestStream vs]))
           \<and> err_stream p \<noteq> [])
       \<or> (st = AVERROR_ENOMEM L \<and> created p = []
           \<and> (\<exists>vs. calls p = [FindBestStream vs]) \<and> err_stream p = []
           \<and> (\<exists>dec. avcodec_alloc_context3 L dec = None))
       \<or> (st = - 1 \<and> created p = [] \<and> (\<exists>vs. calls p = [FindBestStream vs])
           \<and> err_stream p = []
           \<and> (\<exists>c ic i. fst (avcodec_parameters_to_context L c ic i) < 0))
       \<or> (st = 0 \<and> (\<exists>vs r4 w0 r5 w1 r6 w2. 0 \<le> vs \<and> 0 \<le> r4
             \<and> calls w0 = [FindBestStream vs] \<and> err_stream w0 = [] \<and> created w0 = [argv ! 3]
             \<and> hw_read_loop L vs r4 w0 = Some (r5, w1)
             \<and> decode_write L ((packet w1)\<lparr>pkt_data := None, pkt_size := 0\<rparr>)
                   (w1\<lparr>packet := (packet w1)\<lparr>pkt_data := None, pkt_size := 0\<rparr>\<rparr>)
                 = Some (r6, w2)
             \<and> p = process.truncate (unref_packet L w2)))"
proof -
  let ?p0 = "process0 files"
  have p0: "calls ?p0 = []" "err_stream ?p0 = []" "created ?p0 = []"
    by (simp_all add: process0_def)
  show ?thesis
  proof (cases "av_hwdevice_find_type_by_name L (argv ! 1)")
    case None
    with assms obtain p1 where
      l: "list_device_types L None
            (eprint ''Available device types:''
               (eprint (''Device type '' @ argv ! 1 @ '' is not supported.'') ?p0)) = Some p1"
      and r: "st = - 1" "p = eprint [] p1"
      by (auto simp: hw_main_def Let_def split: option.splits)
    from list_device_types_prints[OF l] r p0 show ?thesis
      by (auto simp: eprint_def)
  next
    case (Some type)
    note ty = this
    show ?thesis
    proof (cases "avformat_open_input L (argv ! 2)")
      case None
      with assms ty p0 show ?thesis by (auto simp: hw_main_def Let_def eprint_def)
    next
      case (Some ic0)
      note op = this
      obtain r1 ic1 where si: "avformat_find_stream_info L ic0 = (r1, ic1)"
        by (cases "avformat_find_stream_info L ic0")
      obtain ret decoder where bs: "av_find_best_stream L ic1 = (ret, decoder)"
        by (cases "av_find_best_stream L ic1")
      let ?p1 = "record_call (FindBestStream ret) ?p0"
      have p1: "calls ?p1 = [FindBestStream ret]" "err_stream ?p1 = []" "created ?p1 = []"
        by (simp_all add: p0 record_call_def)
      show ?thesis
      proof (cases "r1 < 0 \<or> ret < 0")
        case True
        have "st = - 1 \<and> created p = [] \<and> (calls p = [] \<or> calls p = [FindBestStream ret])
            \<and> err_stream p \<noteq> []"
        proof (cases "r1 < 0")
          case True
          with assms ty op si p0 show ?thesis
            by (auto simp: hw_main_def Let_def eprint_def)
        next
          case False
          with True have "ret < 0" by simp
          with False assms ty op si bs p0 show ?thesis
            by (auto simp: hw_main_def Let_def eprint_def record_call_def)
        qed
        thus ?thesis by blast
      next
        case False
        hence ok1: "\<not> r1 < 0" "\<not> ret < 0" by simp_all
        from assms ty op si bs ok1 obtain cfg where
          cf: "find_hw_config L decoder type 0 = Some cfg"
          by (auto simp: hw_main_def Let_def split: option.splits)
        show ?thesis
        proof (cases cfg)
          case None
          with assms ty op si bs ok1 cf p1 show ?thesis
            by (auto simp: hw_main_def Let_def eprint_def)
        next
          case (Some fmt)
          note fm = this
          show ?thesis
          proof (cases "avcodec_alloc_context3 L decoder")
            case None
            with assms ty op si bs ok1 cf fm p1 show ?thesis
              by (auto simp: hw_main_def Let_def)
          next
            case (Some c0)
            note al = this
            obtain r2 c1 where pc: "avcodec_parameters_to_context L c0 ic1 ret = (r2, c1)"
              by (cases "avcodec_parameters_to_context L c0 ic1 ret")
            obtain r3 c2 p2 where hi: "hw_decoder_init L c1 type ?p1 = (r3, c2, p2)"
              by (cases "hw_decoder_init L c1 type ?p1")
            obtain r4 c3 where o2: "avcodec_open2 L c2 decoder = (r4, c3)"
              by (cases "avcodec_open2 L c2 decoder")
            note init = hw_decoder_init_effect[OF hi]
            show ?thesis
            proof (cases "r2 < 0")
              case True
              with assms ty op si bs ok1 cf fm al pc have "st = - 1" "p = ?p1"
                by (auto simp: hw_main_def Let_def)
              moreover from pc True have "fst (avcodec_parameters_to_context L c0 ic1 ret) < 0"
                by simp
              ultimately show ?thesis using p1 by blast
            next
              case False
              note ok2 = this
              show ?thesis
              proof (cases "r3 < 0 \<or> r4 < 0")
                case True
                have "st = - 1 \<and> created p = [] \<and> calls p = [FindBestStream ret]
                    \<and> err_stream p \<noteq> []"
                proof (cases "r3 < 0")
                  case True
                  with assms ty op si bs ok1 cf fm al pc ok2 hi init p1 show ?thesis
                    by (auto simp: hw_main_def Let_def)
                next
                  case False
                  with True have "r4 < 0" by simp
                  with False assms ty op si bs ok1 cf fm al pc ok2 hi o2 init p1 show ?thesis
                    by (auto simp: hw_main_def Let_def eprint_def)
                qed
                thus ?thesis by blast
              next
                case False
                hence ok3: "\<not> r3 < 0" "\<not> r4 < 0" by simp_all
                let ?w0 = "hw_start (fopen_w (argv ! 3) p2) c3 ic1 (garbage_packet L) fmt (argv ! 3)"
                from assms ty op si bs ok1 cf fm al pc ok2 hi o2 ok3 obtain r5 w1 r6 w2 where
                  a: "hw_read_loop L ret r4 ?w0 = Some (r5, w1)"
                     "decode_write L ((packet w1)\<lparr>pkt_data := None, pkt_size := 0\<rparr>)
                        (w1\<lparr>packet := (packet w1)\<lparr>pkt_data := None, pkt_size := 0\<rparr>\<rparr>)
                      = Some (r6, w2)"
                     "st = 0" "p = process.truncate (unref_packet L w2)"
                  by (auto simp: hw_main_def Let_def split: option.splits)
                from init ok3 p1 have w0: "calls ?w0 = [FindBestStream ret]" "err_stream ?w0 = []"
                  "created ?w0 = [argv ! 3]"
                  by (simp_all add: fopen_w_def)
                from ok1 ok3 have "0 \<le> ret" "0 \<le> r4" by simp_all
                with a w0 show ?thesis by blast
              qed
            qed
          qed
        qed
      qed
    qed
  qed
qed

text \<open>The history of a run that got past the startup: the stream selection, the packet
  loop, the flush submission with its retrieval, and the release of the flush packet.\<close>

lemma hw_main_history:
  assumes run: "hw_main L files argv = Some (st, p)" and started: "created p \<noteq> []"
  obtains vs cs fl s ds ms ns where
    "calls p = FindBestStream vs # cs @ SendPacket (Some fl) s # ds @ [Unref fl]"
    and "no_payload (Some fl)"
    and "submitted cs = filter (\<lambda>q. stream_index q = vs) (packets_read cs)"
    and "released cs = packets_read cs"
    and "demuxer_payload L \<longrightarrow> (\<forall>c\<in>set cs. \<not> payload_free_sent c)"
    and "\<forall>c\<in>set ds. frame_event c"
    and "err_stream p = ms @ ns"
    and "ns = [] \<longrightarrow> 0 \<le> s \<and>
             (\<exists>rs x. filter engine_call ds = map ReceiveFrame rs @ [ReceiveFrame x]
                \<and> (\<forall>y\<in>set rs. 0 \<le> y \<and> y \<noteq> AVERROR_EAGAIN L \<and> y \<noteq> AVERROR_EOF L)
                \<and> (x = AVERROR_EAGAIN L \<or> x = AVERROR_EOF L)
                \<and> (draining_decoder L no_payload D \<longrightarrow> x = AVERROR_EOF L))"
    and "st = 0"
proof -
  have len: "4 \<le> length argv"
  proof (rule ccontr)
    assume "\<not> 4 \<le> length argv"
    hence "length argv < 4" by simp
    from hw_main_usage[OF run this] started show False by simp
  qed
  from hw_main_cases[OF run len] started obtain vs r4 w0 r5 w1 r6 w2 where
    st: "st = 0"
    and w0: "calls w0 = [FindBestStream vs]" "err_stream w0 = []"
    and loop: "hw_read_loop L vs r4 w0 = Some (r5, w1)"
    and flush: "decode_write L ((packet w1)\<lparr>pkt_data := None, pkt_size := 0\<rparr>)
                   (w1\<lparr>packet := (packet w1)\<lparr>pkt_data := None, pkt_size := 0\<rparr>\<rparr>)
                 = Some (r6, w2)"
    and p: "p = process.truncate (unref_packet L w2)"
    by auto
  let ?fl = "(packet w1)\<lparr>pkt_data := None, pkt_size := 0\<rparr>"
  have np: "no_payload (Some ?fl)" by simp
  from hw_read_loop_effect[OF loop] obtain cs ms where
    c: "calls w1 = calls w0 @ cs" and e: "err_stream w1 = err_stream w0 @ ms"
    and sub: "submitted cs = filter (\<lambda>q. stream_index q = vs) (packets_read cs)"
    and rel: "released cs = packets_read cs"
    and pay: "demuxer_payload L \<longrightarrow> (\<forall>c\<in>set cs. \<not> payload_free_sent c)"
    by auto
  from flush obtain s ds ns where
    d: "packet w2 = packet (w1\<lparr>packet := ?fl\<rparr>)"
       "calls w2 = calls (w1\<lparr>packet := ?fl\<rparr>) @ SendPacket (Some ?fl) s # ds"
       "err_stream w2 = err_stream (w1\<lparr>packet := ?fl\<rparr>) @ ns"
       "\<forall>c\<in>set ds. frame_event c"
    and q: "ns = [] \<longrightarrow> 0 \<le> s \<and>
             (\<exists>rs x. filter engine_call ds = map ReceiveFrame rs @ [ReceiveFrame x]
                \<and> (\<forall>y\<in>set rs. 0 \<le> y \<and> y \<noteq> AVERROR_EAGAIN L \<and> y \<noteq> AVERROR_EOF L)
                \<and> (x = AVERROR_EAGAIN L \<or> x = AVERROR_EOF L)
                \<and> (draining_decoder L no_payload D \<and> no_payload (Some ?fl) \<longrightarrow> x = AVERROR_EOF L))"
    by (rule decode_write_effect[where fl = no_payload and D = D])
  have h1: "calls p = FindBestStream vs # cs @ SendPacket (Some ?fl) s # ds @ [Unref ?fl]"
    using c d(1,2) w0(1) by (simp add: p unref_packet_def record_call_def)
  have h2: "err_stream p = ms @ ns"
    using e d(3) w0(2) by (simp add: p unref_packet_def record_call_def)
  from q np have h3: "ns = [] \<longrightarrow> 0 \<le> s \<and>
             (\<exists>rs x. filter engine_call ds = map ReceiveFrame rs @ [ReceiveFrame x]
                \<and> (\<forall>y\<in>set rs. 0 \<le> y \<and> y \<noteq> AVERROR_EAGAIN L \<and> y \<noteq> AVERROR_EOF L)
                \<and> (x = AVERROR_EAGAIN L \<or> x = AVERROR_EOF L)
                \<and> (draining_decoder L no_payload D \<longrightarrow> x = AVERROR_EOF L))"
    by simp
  from h1 np sub rel pay d(4) h2 h3 st show thesis by (rule that)
qed

text \<open>C10. In a run of \<^verbatim>\<open>video_hw_decode\<close> that got past the startup (the output file
  was opened), with \<open>vs\<close> the stream that \<^verbatim>\<open>av_find_best_stream\<close> selected: the packets
  submitted to the decoder are, in order, the packets delivered by \<^verbatim>\<open>av_read_frame\<close>
  whose stream index is \<open>vs\<close>, followed by the one flush packet, which carries no
  payload; every delivered packet, submitted or not, was released, and so was the
  flush packet.\<close>

theorem only_selected_stream_submitted:
  assumes "hw_main L files argv = Some (st, p)" and "created p \<noteq> []"
  shows "\<exists>vs fl. hd (calls p) = FindBestStream vs
       \<and> submitted (calls p)
           = filter (\<lambda>q. stream_index q = vs) (packets_read (calls p)) @ [fl]
       \<and> no_payload (Some fl)
       \<and> released (calls p) = packets_read (calls p) @ [fl]"
proof -
  from assms obtain vs cs fl s ds where
    c: "calls p = FindBestStream vs # cs @ SendPacket (Some fl) s # ds @ [Unref fl]"
    and np: "no_payload (Some fl)"
    and sub: "submitted cs = filter (\<lambda>q. stream_index q = vs) (packets_read cs)"
    and rel: "released cs = packets_read cs"
    and fe: "\<forall>c\<in>set ds. frame_event c"
    by (rule hw_main_history)
  note z = frame_events_project(1-3)[OF fe]
  have "hd (calls p) = FindBestStream vs" by (simp add: c)
  moreover have "submitted (calls p)
      = filter (\<lambda>q. stream_index q = vs) (packets_read (calls p)) @ [fl]"
    by (simp add: c sub z)
  moreover have "released (calls p) = packets_read (calls p) @ [fl]"
    by (simp add: c rel z)
  ultimately show ?thesis using np by blast
qed

lemmas hw_run_defs2 = hw_main_def hw_start_def hw_read_loop.simps decode_write_def
  decode_write_loop.simps decode_write_body_def find_hw_config.simps
  hw_decoder_init_def unref_packet_def toy_defs io_defs process.defs hw_state.defs
  process0_def count_alloc_def packed_size_def packed_image_def packed_plane_def
  toy_geometry_def upt_conv_Cons

theorem only_selected_stream_submitted_witness:
  "\<exists>p. hw_main toy_hw Map.empty [''hw'', ''toy'', ''in.mkv'', ''out.raw''] = Some (0, p)
     \<and> created p = [''out.raw'']
     \<and> packets_read (calls p)
         = [toy_stream_packet 0, toy_stream_packet 1, toy_stream_packet 0, toy_stream_packet 1]
     \<and> submitted (calls p) = [toy_stream_packet 1, toy_stream_packet 1, blank_packet]"
proof -
  obtain p where run:
    "hw_main toy_hw Map.empty [''hw'', ''toy'', ''in.mkv'', ''out.raw''] = Some (0, p)"
    and cr: "created p = [''out.raw'']"
    and hd: "hd (calls p) = FindBestStream 1"
    and rd: "packets_read (calls p)
         = [toy_stream_packet 0, toy_stream_packet 1, toy_stream_packet 0, toy_stream_packet 1]"
    and rl: "last (released (calls p)) = blank_packet"
    by (simp add: hw_run_defs2)
  from cr have "created p \<noteq> []" by simp
  from only_selected_stream_submitted[OF run this] hd rd rl
  have "submitted (calls p) = [toy_stream_packet 1, toy_stream_packet 1, blank_packet]"
    by (auto simp: toy_stream_packet_def)
  with run cr rd show ?thesis by blast
qed

subsection \<open>Flush and final drain of video_hw_decode.cpp\<close>

lemma filter_engine_frame_events:
  "filter engine_call (cs @ SendPacket q s # ds @ [Unref fl])
     = filter engine_call cs @ SendPacket q s # filter engine_call ds"
  by simp


section \<open>The flush of the three programs\<close>








section \<open>Exit status and diagnostics\<close>








section \<open>The verdict of the drain loops\<close>

lemma hw_receive_verdict:
  assumes "av_frame_alloc H (allocs u) = Some f0"
    and "av_frame_alloc H (Suc (allocs u)) = Some s0"
    and "avcodec_receive_frame H (decoder_ctx u) f0 = (x, g, e)"
  shows "x = AVERROR_EAGAIN H \<or> x = AVERROR_EOF H \<longrightarrow>
          (\<exists>u'. decode_write_loop H u = Some (0, u')
               \<and> calls u' = calls u @ [ReceiveFrame x] \<and> err_stream u' = err_stream u)"
    and "x < 0 \<and> x \<noteq> AVERROR_EAGAIN H \<and> x \<noteq> AVERROR_EOF H \<longrightarrow>
          (\<exists>u'. decode_write_loop H u = Some (x, u')
               \<and> calls u' = calls u @ [ReceiveFrame x]
               \<and> err_stream u' = err_stream u @ [''Error while decoding''])
        \<and> hw_read_loop H vs x z = Some (x, z)"
proof -
  let ?u3 = "record_call (ReceiveFrame x) ((count_alloc (count_alloc u))\<lparr>decoder_ctx := e\<rparr>)"
  show "x = AVERROR_EAGAIN H \<or> x = AVERROR_EOF H \<longrightarrow>
          (\<exists>u'. decode_write_loop H u = Some (0, u')
               \<and> calls u' = calls u @ [ReceiveFrame x] \<and> err_stream u' = err_stream u)"
  proof
    assume "x = AVERROR_EAGAIN H \<or> x = AVERROR_EOF H"
    with assms have "decode_write_body H u = (Return 0, ?u3)"
      by (auto simp: decode_write_body_def Let_def)
    hence "decode_write_loop H u = Some (0, ?u3)"
      by (simp add: decode_write_loop.simps)
    moreover have "calls ?u3 = calls u @ [ReceiveFrame x]" "err_stream ?u3 = err_stream u"
      by (simp_all add: record_call_def count_alloc_def)
    ultimately show "\<exists>u'. decode_write_loop H u = Some (0, u')
               \<and> calls u' = calls u @ [ReceiveFrame x] \<and> err_stream u' = err_stream u"
      by blast
  qed
  show "x < 0 \<and> x \<noteq> AVERROR_EAGAIN H \<and> x \<noteq> AVERROR_EOF H \<longrightarrow>
          (\<exists>u'. decode_write_loop H u = Some (x, u')
               \<and> calls u' = calls u @ [ReceiveFrame x]
               \<and> err_stream u' = err_stream u @ [''Error while decoding''])
        \<and> hw_read_loop H vs x z = Some (x, z)"
  proof
    assume a: "x < 0 \<and> x \<noteq> AVERROR_EAGAIN H \<and> x \<noteq> AVERROR_EOF H"
    let ?u4 = "eprint ''Error while decoding'' ?u3"
    from a assms have "decode_write_body H u = (At_fail x, ?u4)"
      by (auto simp: decode_write_body_def Let_def)
    with a have "decode_write_loop H u = Some (x, ?u4)"
      by (simp add: decode_write_loop.simps)
    moreover have "calls ?u4 = calls u @ [ReceiveFrame x]"
      "err_stream ?u4 = err_stream u @ [''Error while decoding'']"
      by (simp_all add: record_call_def count_alloc_def eprint_def)
    moreover from a have "hw_read_loop H vs x z = Some (x, z)"
      by (simp add: hw_read_loop.simps)
    ultimately show "(\<exists>u'. decode_write_loop H u = Some (x, u')
               \<and> calls u' = calls u @ [ReceiveFrame x]
               \<and> err_stream u' = err_stream u @ [''Error while decoding''])
        \<and> hw_read_loop H vs x z = Some (x, z)"
      by blast
  qed
qed

text \<open>C1, as amended. A call of \<^verbatim>\<open>decode\<close> or \<^verbatim>\<open>encode\<close> that comes to an end either had
  its submission refused (a negative send result: exit status 1), or it drained: every
  receive result before the last produced an output, and the last one decides. A last
  result of Starved (\<^verbatim>\<open>AVERROR(EAGAIN)\<close>) or Exhausted (\<^verbatim>\<open>AVERROR_EOF\<close>) stops the
  drain and returns to the caller with nothing written to the error stream; any other
  negative result ends the process with status 1 and one diagnostic line. In the
  retrieval loop of \<^verbatim>\<open>decode_write\<close> a receive result of Starved or Exhausted makes the
  loop return 0 with nothing written to the error stream; any other negative result
  makes it print one diagnostic line and return that result to its caller, and the
  packet loop of \<^verbatim>\<open>main\<close> stops on it.\<close>

theorem pump_drain_verdict:
  "(decode L p fn w = Some r \<longrightarrow>
      (\<exists>s w'. s < 0 \<and> r = Exited 1 w' \<and> calls w' = calls w @ [SendPacket p s]
            \<and> err_stream w' = err_stream w @ [''Error sending a packet for decoding''])
    \<or> (\<exists>s. 0 \<le> s \<and> drained (AVERROR_EAGAIN L) (AVERROR_EOF L) ReceiveFrame
             ''Error during decoding'' (calls w @ [SendPacket p s]) (err_stream w) r))
 \<and> (encode E fr out v = Some q \<longrightarrow>
      (\<exists>s v'. s < 0 \<and> q = Exited 1 v' \<and> calls v' = calls v @ [SendFrame fr s]
            \<and> err_stream v' = err_stream v @ [''Error sending a frame for encoding''])
    \<or> (\<exists>s. 0 \<le> s \<and> drained (AVERROR_EAGAIN E) (AVERROR_EOF E) ReceivePacket
             ''Error during encoding'' (calls v @ [SendFrame fr s]) (err_stream v) q))
 \<and> (av_frame_alloc H (allocs u) = Some f0 \<and> av_frame_alloc H (Suc (allocs u)) = Some s0
      \<and> avcodec_receive_frame H (decoder_ctx u) f0 = (x, g, e) \<longrightarrow>
      (x = AVERROR_EAGAIN H \<or> x = AVERROR_EOF H \<longrightarrow>
          (\<exists>u'. decode_write_loop H u = Some (0, u')
               \<and> calls u' = calls u @ [ReceiveFrame x] \<and> err_stream u' = err_stream u))
    \<and> (x < 0 \<and> x \<noteq> AVERROR_EAGAIN H \<and> x \<noteq> AVERROR_EOF H \<longrightarrow>
          (\<exists>u'. decode_write_loop H u = Some (x, u')
               \<and> calls u' = calls u @ [ReceiveFrame x]
               \<and> err_stream u' = err_stream u @ [''Error while decoding''])
        \<and> hw_read_loop H vs x z = Some (x, z)))"
proof (intro conjI impI)
  assume "decode L p fn w = Some r"
  thus "(\<exists>s w'. s < 0 \<and> r = Exited 1 w' \<and> calls w' = calls w @ [SendPacket p s]
            \<and> err_stream w' = err_stream w @ [''Error sending a packet for decoding''])
    \<or> (\<exists>s. 0 \<le> s \<and> drained (AVERROR_EAGAIN L) (AVERROR_EOF L) ReceiveFrame
             ''Error during decoding'' (calls w @ [SendPacket p s]) (err_stream w) r)"
    by (rule decode_verdict)
next
  assume "encode E fr out v = Some q"
  thus "(\<exists>s v'. s < 0 \<and> q = Exited 1 v' \<and> calls v' = calls v @ [SendFrame fr s]
            \<and> err_stream v' = err_stream v @ [''Error sending a frame for encoding''])
    \<or> (\<exists>s. 0 \<le> s \<and> drained (AVERROR_EAGAIN E) (AVERROR_EOF E) ReceivePacket
             ''Error during encoding'' (calls v @ [SendFrame fr s]) (err_stream v) q)"
    by (rule encode_verdict)
next
  assume a: "av_frame_alloc H (allocs u) = Some f0 \<and> av_frame_alloc H (Suc (allocs u)) = Some s0
      \<and> avcodec_receive_frame H (decoder_ctx u) f0 = (x, g, e)"
  assume "x = AVERROR_EAGAIN H \<or> x = AVERROR_EOF H"
  with a hw_receive_verdict(1)[of H u f0 s0 x g e]
  show "\<exists>u'. decode_write_loop H u = Some (0, u')
               \<and> calls u' = calls u @ [ReceiveFrame x] \<and> err_stream u' = err_stream u"
    by simp
next
  assume a: "av_frame_alloc H (allocs u) = Some f0 \<and> av_frame_alloc H (Suc (allocs u)) = Some s0
      \<and> avcodec_receive_frame H (decoder_ctx u) f0 = (x, g, e)"
  assume b: "x < 0 \<and> x \<noteq> AVERROR_EAGAIN H \<and> x \<noteq> AVERROR_EOF H"
  from a b hw_receive_verdict(2)[of H u f0 s0 x g e vs z]
  show "\<exists>u'. decode_write_loop H u = Some (x, u')
               \<and> calls u' = calls u @ [ReceiveFrame x]
               \<and> err_stream u' = err_stream u @ [''Error while decoding'']"
    by simp
  from a b hw_receive_verdict(2)[of H u f0 s0 x g e vs z]
  show "hw_read_loop H vs x z = Some (x, z)"
    by simp
qed

theorem pump_drain_verdict_witness:
  "\<exists>r s q t u'. decode toy_decoder (Some blank_packet) ''out'' toy_decode_state = Some r
      \<and> drained (- 11) (- 541478725) ReceiveFrame ''Error during decoding''
           [SendPacket (Some blank_packet) s] [] r
      \<and> encode toy_encoder None ''out.bin'' toy_encode_state = Some q
      \<and> drained (- 11) (- 541478725) ReceivePacket ''Error during encoding''
           [SendFrame None t] [] q
      \<and> decode_write_loop toy_hw_failing toy_hw_state = Some (- 5, u')
      \<and> calls u' = [ReceiveFrame (- 5)] \<and> err_stream u' = [''Error while decoding'']"
proof -
  obtain w' where r:
    "decode toy_decoder (Some blank_packet) ''out'' toy_decode_state = Some (Returned w')"
    by (simp add: decode_def decode_loop.simps toy_defs io_defs)
  obtain v' where q:
    "encode toy_encoder None ''out.bin'' toy_encode_state = Some (Returned v')"
    by (simp add: encode_def encode_loop.simps toy_defs io_defs)
  have c: "calls toy_decode_state = []" "err_stream toy_decode_state = []"
     "calls toy_encode_state = []" "err_stream toy_encode_state = []"
     "AVERROR_EAGAIN toy_decoder = - 11" "AVERROR_EOF toy_decoder = - 541478725"
     "AVERROR_EAGAIN toy_encoder = - 11" "AVERROR_EOF toy_encoder = - 541478725"
    by (simp_all add: toy_decode_state_def toy_encode_state_def toy_decoder_def toy_encoder_def)
  have h: "av_frame_alloc toy_hw_failing (allocs toy_hw_state) = Some blank_frame"
    "av_frame_alloc toy_hw_failing (Suc (allocs toy_hw_state)) = Some blank_frame"
    "avcodec_receive_frame toy_hw_failing (decoder_ctx toy_hw_state) blank_frame
       = (- 5, blank_frame, decoder_ctx toy_hw_state)"
    "AVERROR_EAGAIN toy_hw_failing = - 11" "AVERROR_EOF toy_hw_failing = - 541478725"
    "calls toy_hw_state = []" "err_stream toy_hw_state = []"
    by (simp_all add: toy_hw_failing_def toy_hw_def toy_hw_state_def)
  from pump_drain_verdict
    [where L = toy_decoder and p = "Some blank_packet" and fn = "''out''"
       and w = toy_decode_state and r = "Returned w'"
       and E = toy_encoder and fr = None and out = "''out.bin''" and v = toy_encode_state
       and q = "Returned v'"
       and H = toy_hw_failing and u = toy_hw_state and ?f0.0 = blank_frame
       and ?s0.0 = blank_frame and x = "- 5" and g = blank_frame
       and e = "decoder_ctx toy_hw_state"] r q h
  show ?thesis
    unfolding c by auto
qed

text \<open>With a decoder whose receive call fails, \<^verbatim>\<open>video_hw_decode\<close> goes on after the
  fatal result: it submits the flush packet, calls receive again and returns 0.\<close>

theorem fatal_receive_then_flush:
  "map_option fst (hw_main toy_hw_failing Map.empty [''hw'', ''toy'', ''in.mkv'', ''out.raw''])
     = Some 0
 \<and> map_option (filter engine_call \<circ> calls \<circ> snd)
     (hw_main toy_hw_failing Map.empty [''hw'', ''toy'', ''in.mkv'', ''out.raw''])
     = Some [SendPacket (Some (toy_stream_packet 1)) 0, ReceiveFrame (- 5),
             SendPacket (Some blank_packet) 0, ReceiveFrame (- 5)]"
  by (simp add: hw_run_defs2)

end
